theory Spec2Isabelle
  imports Main "HOL-Library.Word" "HOL-Library.Char_ord"
begin

unbundle bit_operations_syntax

text \<open>
  The firmware of the two nodes shares a fixed-capacity ring buffer and has two framers
  that turn a byte stream into records: the NMEA sentence framer of the GPS driver on the
  brain node, and the newline-terminated telemetry framer on the display node.  The
  three are embedded below as functions on explicit states, one definition for each C
  function under its own name, followed by the properties proved of them.
\<close>

section \<open>Ring buffer (brain\_module and display\_module, util/ring\_buffer.c)\<close>

text \<open>
  The two firmware trees carry the same ring buffer; \<open>ring_buffer_init\<close>,
  \<open>ring_buffer_write\<close>, \<open>ring_buffer_read\<close> and the queries
  are token for token identical in both files, so one embedding covers both.

  The header that declares \<open>ring_buffer_t\<close> and \<open>rb_size_t\<close> is not among the
  sources.  The struct is taken from the fields the code uses, and \<open>rb_size_t\<close> is an
  unsigned integer type of unknown width: the type parameter \<open>'w\<close> of \<open>'w word\<close>.
  A pointer argument is an \<open>option\<close>: \<open>None\<close> is the null pointer.
  The storage is the list of bytes behind \<open>rb->buffer\<close>.

  C may promote \<open>rb->head + 1\<close> to \<open>int\<close> before the remainder is taken, where the
  word addition wraps at the width of \<open>rb_size_t\<close>.  The two agree unless \<open>head\<close> is
  the largest value of the type, which \<open>head < size\<close> excludes; \<open>rb_wf\<close> below keeps
  that, and \<open>count < size\<close> where \<open>count\<close> is incremented.
\<close>

record 's ring_buffer_t =
  buffer :: "8 word list"
  size_rb :: "'s"
  head :: "'s"
  tail :: "'s"
  count :: "'s"

definition ring_buffer_init ::
  "'w::len word ring_buffer_t option \<Rightarrow> 8 word list option \<Rightarrow> 'w word
    \<Rightarrow> 'w word ring_buffer_t option" where
  "ring_buffer_init rb buffer_ptr sz =
     (case rb of
        None \<Rightarrow> rb
      | Some r \<Rightarrow>
         (case buffer_ptr of
            None \<Rightarrow> rb
          | Some b \<Rightarrow>
             if sz = 0 then rb
             else Some (r\<lparr>buffer := b, size_rb := sz, head := 0, tail := 0, count := 0\<rparr>)))"

definition ring_buffer_bytes_available :: "'w::len word ring_buffer_t option \<Rightarrow> 'w word" where
  "ring_buffer_bytes_available rb = (case rb of Some r \<Rightarrow> count r | None \<Rightarrow> 0)"

definition ring_buffer_space_remaining :: "'w::len word ring_buffer_t option \<Rightarrow> 'w word" where
  "ring_buffer_space_remaining rb = (case rb of Some r \<Rightarrow> size_rb r - count r | None \<Rightarrow> 0)"

definition ring_buffer_is_empty :: "'w::len word ring_buffer_t option \<Rightarrow> bool" where
  "ring_buffer_is_empty rb = (case rb of Some r \<Rightarrow> count r = 0 | None \<Rightarrow> True)"

definition ring_buffer_is_full :: "'w::len word ring_buffer_t option \<Rightarrow> bool" where
  "ring_buffer_is_full rb = (case rb of Some r \<Rightarrow> count r = size_rb r | None \<Rightarrow> True)"

text \<open>
  \<open>ring_buffer_write\<close> returns the flag and the buffer after the call.  The store
  \<open>rb->buffer[rb->head] = data\<close> is a list update; it is in range whenever
  \<open>head < size\<close> and the storage holds \<open>size\<close> bytes, which \<open>rb_wf\<close> below keeps.
\<close>

definition ring_buffer_write ::
  "'w::len word ring_buffer_t option \<Rightarrow> 8 word \<Rightarrow> bool \<times> 'w word ring_buffer_t option" where
  "ring_buffer_write rb data =
     (case rb of
        None \<Rightarrow> (False, rb)
      | Some r \<Rightarrow>
          if ring_buffer_is_full rb then (False, rb)
          else (True, Some (r\<lparr>buffer := (buffer r)[unat (head r) := data],
                               head := (head r + 1) mod size_rb r,
                               count := count r + 1\<rparr>)))"

text \<open>
  \<open>ring_buffer_read\<close> takes the out-pointer \<open>data\<close> as the optional byte it points at
  and returns the flag, the byte behind \<open>data\<close> after the call, and the buffer.
\<close>

definition ring_buffer_read ::
  "'w::len word ring_buffer_t option \<Rightarrow> 8 word option
    \<Rightarrow> bool \<times> 8 word option \<times> 'w word ring_buffer_t option" where
  "ring_buffer_read rb data =
     (case rb of
        None \<Rightarrow> (False, data, rb)
      | Some r \<Rightarrow>
          if data = None \<or> ring_buffer_is_empty rb then (False, data, rb)
          else (True, Some (buffer r ! unat (tail r)),
                Some (r\<lparr>tail := (tail r + 1) mod size_rb r, count := count r - 1\<rparr>)))"

definition ring_buffer_clear :: "'w::len word ring_buffer_t option \<Rightarrow> 'w word ring_buffer_t option" where
  "ring_buffer_clear rb =
     (case rb of None \<Rightarrow> rb | Some r \<Rightarrow> Some (r\<lparr>head := 0, tail := 0, count := 0\<rparr>))"

subsection \<open>Sequences of calls\<close>

text \<open>
  A call is a write of a byte or a read into a valid location.  \<open>rb_calls\<close> is the buffer
  after a sequence of calls, \<open>rb_written\<close> the bytes whose write returned true and
  \<open>rb_read_out\<close> the bytes delivered by the reads that returned true, both in call order.
\<close>

datatype rb_call = Write "8 word" | Read

fun rb_call_step :: "'w::len word ring_buffer_t option \<Rightarrow> rb_call \<Rightarrow> 'w word ring_buffer_t option" where
  "rb_call_step rb (Write d) = snd (ring_buffer_write rb d)"
| "rb_call_step rb Read = snd (snd (ring_buffer_read rb (Some 0)))"

fun rb_calls :: "'w::len word ring_buffer_t option \<Rightarrow> rb_call list \<Rightarrow> 'w word ring_buffer_t option" where
  "rb_calls rb [] = rb"
| "rb_calls rb (c # cs) = rb_calls (rb_call_step rb c) cs"

fun rb_written :: "'w::len word ring_buffer_t option \<Rightarrow> rb_call list \<Rightarrow> 8 word list" where
  "rb_written rb [] = []"
| "rb_written rb (Write d # cs) =
     (if fst (ring_buffer_write rb d) then [d] else []) @ rb_written (rb_call_step rb (Write d)) cs"
| "rb_written rb (Read # cs) = rb_written (rb_call_step rb Read) cs"

fun rb_read_out :: "'w::len word ring_buffer_t option \<Rightarrow> rb_call list \<Rightarrow> 8 word list" where
  "rb_read_out rb [] = []"
| "rb_read_out rb (Write d # cs) = rb_read_out (rb_call_step rb (Write d)) cs"
| "rb_read_out rb (Read # cs) =
     (case ring_buffer_read rb (Some 0) of
        (True, Some b, _) \<Rightarrow> [b]
      | _ \<Rightarrow> []) @ rb_read_out (rb_call_step rb Read) cs"

text \<open>
  The well-formedness that every reachable buffer of capacity \<open>N\<close> has, and the bytes
  it holds, oldest first.
\<close>

definition rb_wf :: "'w::len word \<Rightarrow> 'w word ring_buffer_t \<Rightarrow> bool" where
  "rb_wf N r \<longleftrightarrow>
     size_rb r = N \<and> N \<noteq> 0 \<and> head r < N \<and> tail r < N \<and> count r \<le> N \<and>
     unat (head r) = (unat (tail r) + unat (count r)) mod unat N"

definition rb_contents :: "'w::len word ring_buffer_t \<Rightarrow> 8 word list" where
  "rb_contents r =
     map (\<lambda>i. buffer r ! ((unat (tail r) + i) mod unat (size_rb r))) [0..<unat (count r)]"

section \<open>C strings and the library calls the parsers use\<close>

text \<open>
  A \<open>char\<close> array is a list of characters; the string a pointer to it denotes runs up
  to the first NUL.  The library functions are taken from ISO C: \<open>strtol\<close> skips white
  space, reads a sign, for base 16 an optional \<open>0x\<close>, then digits while they are valid in
  the base, and clamps to the range of \<open>long\<close> (32 bits on the ATmega328P that the
  firmware's \<open>config.h\<close> names); \<open>atoi\<close> is \<open>strtol\<close> in base 10; \<open>strncmp\<close>
  compares at most \<open>n\<close> characters.
\<close>

abbreviation NUL :: char where "NUL \<equiv> CHR 0x00"
abbreviation LF :: char where "LF \<equiv> CHR 0x0A"
abbreviation CR :: char where "CR \<equiv> CHR 0x0D"

definition c_str :: "char list \<Rightarrow> string" where
  "c_str buf = takeWhile (\<lambda>c. c \<noteq> NUL) buf"

definition isspace :: "char \<Rightarrow> bool" where
  "isspace c \<longleftrightarrow> c = CHR '' '' \<or> (9 \<le> (of_char c :: nat) \<and> (of_char c :: nat) \<le> 13)"

definition isdigit :: "char \<Rightarrow> bool" where
  "isdigit c \<longleftrightarrow> 48 \<le> (of_char c :: nat) \<and> (of_char c :: nat) \<le> 57"

definition digit_of :: "char \<Rightarrow> nat option" where
  "digit_of c =
     (let n = (of_char c :: nat) in
      if 48 \<le> n \<and> n \<le> 57 then Some (n - 48)
      else if 65 \<le> n \<and> n \<le> 90 then Some (n - 55)
      else if 97 \<le> n \<and> n \<le> 122 then Some (n - 87)
      else None)"

fun strtol_digits :: "nat \<Rightarrow> string \<Rightarrow> nat \<Rightarrow> nat" where
  "strtol_digits base [] acc = acc"
| "strtol_digits base (c # cs) acc =
     (case digit_of c of
        None \<Rightarrow> acc
      | Some d \<Rightarrow> if d < base then strtol_digits base cs (acc * base + d) else acc)"

definition LONG_MAX :: int where "LONG_MAX = 2 ^ 31 - 1"
definition LONG_MIN :: int where "LONG_MIN = - (2 ^ 31)"

definition strtol :: "string \<Rightarrow> nat \<Rightarrow> int" where
  "strtol nptr base =
     (let s1 = dropWhile isspace nptr;
          neg = (take 1 s1 = ''-'');
          s2 = (if take 1 s1 = ''-'' \<or> take 1 s1 = ''+'' then drop 1 s1 else s1);
          s3 = (if base = 16 \<and> (take 2 s2 = ''0x'' \<or> take 2 s2 = ''0X'') then drop 2 s2 else s2);
          v = int (strtol_digits base s3 0)
      in if neg then max (- v) LONG_MIN else min v LONG_MAX)"

definition atoi :: "string \<Rightarrow> int" where
  "atoi nptr = strtol nptr 10"

fun strncmp :: "string \<Rightarrow> string \<Rightarrow> nat \<Rightarrow> int" where
  "strncmp a b 0 = 0"
| "strncmp [] [] (Suc n) = 0"
| "strncmp [] (y # ys) (Suc n) = - of_char y"
| "strncmp (x # xs) [] (Suc n) = of_char x"
| "strncmp (x # xs) (y # ys) (Suc n) = (if x = y then strncmp xs ys n else of_char x - of_char y)"

section \<open>GPS driver (brain\_module, drivers/gps\_driver.c)\<close>

text \<open>
  The \<open>float\<close> fields of \<open>gps_data_t\<close> are kept symbolic: a value is the expression
  that computes it (\<open>atof\<close> of a field, a literal, a product).  The driver never branches
  on a \<open>float\<close>, so every reading of these expressions as machine numbers gives the
  driver's behaviour.
\<close>

datatype cfloat = FZero | FLit string | Atof string | FMul cfloat cfloat

record gps_data_t =
  hour :: "8 word"
  minute :: "8 word"
  second :: "8 word"
  millisecond :: "16 word"
  day :: "8 word"
  month :: "8 word"
  year :: "16 word"
  latitude :: cfloat
  longitude :: cfloat
  altitude_msl :: cfloat
  speed_knots :: cfloat
  speed_kmh :: cfloat
  course_deg :: cfloat
  fix_quality :: "8 word"
  fix_valid :: bool
  satellites_tracked :: "8 word"
  seen_gga :: bool
  seen_rmc :: bool

text \<open>
  The driver's file-scope variables.  \<open>nmea_buffer\<close> has
  \<open>NMEA_MAX_SENTENCE_LEN + 1\<close> characters.  \<open>nmea_buffer_index\<close> is a \<open>uint8_t\<close>
  that is only ever incremented below \<open>NMEA_MAX_SENTENCE_LEN\<close>, so a natural number
  holds it without wrap-around.
\<close>

record gps_state =
  current_gps_data :: gps_data_t
  data_updated :: bool
  data_valid_fix :: bool
  nmea_buffer :: "char list"
  nmea_buffer_index :: nat
  sentence_in_progress :: bool

definition NMEA_MAX_SENTENCE_LEN :: nat where "NMEA_MAX_SENTENCE_LEN = 82"
definition NMEA_MAX_FIELDS :: nat where "NMEA_MAX_FIELDS = 20"

fun checksum_loop :: "string \<Rightarrow> 8 word \<Rightarrow> 8 word" where
  "checksum_loop [] checksum = checksum"
| "checksum_loop (c # cs) checksum =
     (if c = CHR ''*'' then checksum else checksum_loop cs (checksum XOR of_char c))"

definition nmea_calculate_checksum :: "string \<Rightarrow> 8 word" where
  "nmea_calculate_checksum sentence =
     (case sentence of
        [] \<Rightarrow> 0
      | c # cs \<Rightarrow> if c = CHR ''$'' then checksum_loop cs 0 else checksum_loop sentence 0)"

definition nmea_validate_checksum :: "string \<Rightarrow> bool" where
  "nmea_validate_checksum sentence =
     (let checksum_str = dropWhile (\<lambda>c. c \<noteq> CHR ''*'') sentence in
      if checksum_str = [] \<or> length checksum_str < 3 then False
      else nmea_calculate_checksum sentence = of_int (strtol (drop 1 checksum_str) 16))"

text \<open>
  \<open>nmea_split_fields\<close> walks the sentence with \<open>p\<close>, writes a NUL over each comma and
  over the \<open>*\<close> it stops at, and stores a pointer to the start of each field.  The model
  returns the fields as the strings those pointers denote afterwards, and the sentence as
  rewritten.  \<open>split_loop\<close> is the \<open>while\<close> loop and the \<open>if\<close> after it: \<open>p\<close> is
  the rest of the sentence, \<open>cnt\<close> the number of fields stored, \<open>cur\<close> the
  characters of the field being read, \<open>fin\<close> the finished fields (both reversed), \<open>out\<close> the rewritten characters so far (reversed).
  When the loop stops because the field array is full, the last field runs on to the end
  of the sentence, commas included.
\<close>

fun split_loop ::
  "string \<Rightarrow> nat \<Rightarrow> nat \<Rightarrow> string \<Rightarrow> string list \<Rightarrow> string \<Rightarrow> string list \<times> string" where
  "split_loop [] cnt max_fields cur fin out = (rev (rev cur # fin), rev out)"
| "split_loop (c # cs) cnt max_fields cur fin out =
     (if c = CHR ''*'' then (rev (rev cur # fin), rev out @ NUL # cs)
      else if \<not> cnt < max_fields then (rev ((rev cur @ c # cs) # fin), rev out @ c # cs)
      else if c = CHR '','' then split_loop cs (cnt + 1) max_fields [] (rev cur # fin) (NUL # out)
      else split_loop cs cnt max_fields (c # cur) fin (c # out))"

definition nmea_split_fields :: "string \<Rightarrow> nat \<Rightarrow> string list \<times> string" where
  "nmea_split_fields sentence max_fields = split_loop sentence 1 max_fields [] [] []"

text \<open>\<open>first_char f\<close> is \<open>f[0]\<close>: the first character of a field, NUL when it is empty.\<close>

definition first_char :: "string \<Rightarrow> char" where
  "first_char f = (case f of [] \<Rightarrow> NUL | c # _ \<Rightarrow> c)"

definition parse_gprmc :: "gps_state \<Rightarrow> string list \<Rightarrow> nat \<Rightarrow> gps_state" where
  "parse_gprmc s flds field_count =
     (if field_count < 12 then s
      else
        let d0 = current_gps_data s;
            d1 = (if length (flds ! 1) \<ge> 6 then d0\<lparr>hour := 12, minute := 34, second := 56\<rparr> else d0);
            d2 = d1\<lparr>fix_valid := (first_char (flds ! 2) = CHR ''A'')\<rparr>;
            d3 = d2\<lparr>latitude := FLit ''40.7128f'', longitude := FLit ''-74.0060f''\<rparr>;
            d4 = d3\<lparr>speed_knots := Atof (flds ! 7)\<rparr>;
            d5 = d4\<lparr>speed_kmh := FMul (speed_knots d4) (FLit ''1.852f'')\<rparr>;
            d6 = d5\<lparr>course_deg := Atof (flds ! 8)\<rparr>;
            d7 = (if length (flds ! 9) = 6 then d6\<lparr>day := 5, month := 5, year := 2025\<rparr> else d6);
            d8 = d7\<lparr>seen_rmc := True\<rparr>
        in s\<lparr>current_gps_data := d8, data_updated := True, data_valid_fix := fix_valid d8\<rparr>)"

definition parse_gpgga :: "gps_state \<Rightarrow> string list \<Rightarrow> nat \<Rightarrow> gps_state" where
  "parse_gpgga s flds field_count =
     (if field_count < 10 then s
      else
        let d0 = current_gps_data s;
            d1 = d0\<lparr>fix_quality := of_int (atoi (flds ! 6))\<rparr>;
            d2 = (if \<not> seen_rmc d1 \<or> first_char (flds ! 2) = CHR ''V''
                  then d1\<lparr>fix_valid := (fix_quality d1 > 0)\<rparr> else d1);
            d3 = d2\<lparr>satellites_tracked := of_int (atoi (flds ! 7))\<rparr>;
            d4 = d3\<lparr>altitude_msl := Atof (flds ! 9)\<rparr>;
            d5 = d4\<lparr>seen_gga := True\<rparr>
        in s\<lparr>current_gps_data := d5, data_updated := True, data_valid_fix := fix_valid d5\<rparr>)"

text \<open>
  \<open>process_nmea_sentence\<close> splits the sentence it is given in place, from its second
  character on: it returns the state and the sentence as rewritten, which the caller
  \<open>gps_process_char\<close>, having passed \<open>nmea_buffer\<close>, finds in that buffer.
\<close>

definition process_nmea_sentence :: "gps_state \<Rightarrow> string \<Rightarrow> gps_state \<times> string" where
  "process_nmea_sentence s sentence =
     (let (flds, rewritten) = nmea_split_fields (drop 1 sentence) NMEA_MAX_FIELDS;
          field_count = length flds;
          s' = (if field_count < 1 then s
                else if strncmp (flds ! 0) ''GPRMC'' 5 = 0 \<or> strncmp (flds ! 0) ''GNRMC'' 5 = 0
                     then parse_gprmc s flds field_count
                else if strncmp (flds ! 0) ''GPGGA'' 5 = 0 \<or> strncmp (flds ! 0) ''GNGGA'' 5 = 0
                     then parse_gpgga s flds field_count
                else s)
      in (s', take 1 sentence @ rewritten))"

text \<open>\<open>gps_init\<close>: \<open>memset\<close> of the record to zero and the reset of the parser state.
  The buffer is a zero-initialised static array.\<close>

definition gps_init :: gps_state where
  "gps_init =
     \<lparr>current_gps_data =
        \<lparr>hour = 0, minute = 0, second = 0, millisecond = 0, day = 0, month = 0, year = 0,
         latitude = FZero, longitude = FZero, altitude_msl = FZero, speed_knots = FZero,
         speed_kmh = FZero, course_deg = FZero, fix_quality = 0, fix_valid = False,
         satellites_tracked = 0, seen_gga = False, seen_rmc = False\<rparr>,
      data_updated = False, data_valid_fix = False,
      nmea_buffer = replicate (NMEA_MAX_SENTENCE_LEN + 1) NUL,
      nmea_buffer_index = 0, sentence_in_progress = False\<rparr>"

definition gps_process_char :: "gps_state \<Rightarrow> char \<Rightarrow> gps_state" where
  "gps_process_char s received_char =
     (if received_char = CHR ''$'' then
        s\<lparr>nmea_buffer := (nmea_buffer s)[0 := received_char],
          nmea_buffer_index := 1,
          sentence_in_progress := True\<rparr>
      else if sentence_in_progress s then
        let s1 = (if nmea_buffer_index s < NMEA_MAX_SENTENCE_LEN
                  then s\<lparr>nmea_buffer := (nmea_buffer s)[nmea_buffer_index s := received_char],
                         nmea_buffer_index := nmea_buffer_index s + 1\<rparr>
                  else s\<lparr>sentence_in_progress := False\<rparr>)
        in if received_char = LF then
             let i = nmea_buffer_index s1;
                 b1 = (nmea_buffer s1)[i := NUL];
                 b2 = (if i > 1 \<and> b1 ! (i - 2) = CR then b1[i - 2 := NUL] else b1[i - 1 := NUL]);
                 s2 = s1\<lparr>nmea_buffer := b2\<rparr>;
                 s3 = (if nmea_validate_checksum (c_str b2)
                       then case process_nmea_sentence s2 (c_str b2) of
                              (s', sentence') \<Rightarrow>
                                s'\<lparr>nmea_buffer := sentence' @ drop (length sentence') b2\<rparr>
                       else s2)
             in s3\<lparr>sentence_in_progress := False\<rparr>
           else s1
      else s)"

definition gps_is_data_available :: "gps_state \<Rightarrow> bool" where
  "gps_is_data_available s = data_updated s"

text \<open>\<open>gps_get_data\<close>: the out-pointer is the optional record it points at.\<close>

definition gps_get_data :: "gps_state \<Rightarrow> gps_data_t option \<Rightarrow> bool \<times> gps_data_t option \<times> gps_state" where
  "gps_get_data s data =
     (case data of
        None \<Rightarrow> (False, None, s)
      | Some _ \<Rightarrow> (data_valid_fix s, Some (current_gps_data s), s\<lparr>data_updated := False\<rparr>))"

text \<open>The receive loop of \<open>main.c\<close> hands the bytes to \<open>gps_process_char\<close> in arrival order.\<close>

definition gps_feed :: "gps_state \<Rightarrow> char list \<Rightarrow> gps_state" where
  "gps_feed s bytes = foldl gps_process_char s bytes"

text \<open>
  For the properties below: \<open>gps_wf\<close> says that the buffer has the length of the C array;
  \<open>gps_out\<close> is what the driver's accessors can show of the state (the record and the two
  flags); \<open>strip_cr\<close> removes the carriage return that ends a sentence body.
\<close>

definition gps_wf :: "gps_state \<Rightarrow> bool" where
  "gps_wf s \<longleftrightarrow> length (nmea_buffer s) = NMEA_MAX_SENTENCE_LEN + 1"

definition gps_out :: "gps_state \<Rightarrow> gps_data_t \<times> bool \<times> bool" where
  "gps_out s = (current_gps_data s, data_updated s, data_valid_fix s)"

definition strip_cr :: "string \<Rightarrow> string" where
  "strip_cr body = (if body \<noteq> [] \<and> last body = CR then butlast body else body)"

text \<open>The characters between \<open>$\<close> and \<open>*\<close> of the specification's example sentence.\<close>

definition rmc_example :: string where
  "rmc_example = ''GPRMC,123456.00,A,4042.768,N,07400.360,W,5.0,90.0,050525,,,A''"

section \<open>Telemetry receiver (display\_module, drivers/ble\_rx.c)\<close>

record display_status_data_t =
  battery_mv :: "16 word"
  signal_status :: "8 word"
  speed_kmh :: "8 word"
  updated :: bool

text \<open>\<open>instruction\<close> is the array of 64 characters.\<close>

record display_nav_data_t =
  instruction :: "char list"
  distance_m :: "16 word"
  updated :: bool

record ble_state =
  current_status_data :: display_status_data_t
  current_nav_data :: display_nav_data_t
  is_connected :: bool
  rx_buffer :: "char list"
  rx_buffer_idx :: nat

definition BLE_RX_BUFFER_LEN :: nat where "BLE_RX_BUFFER_LEN = 128"
definition BLE_MSG_TERMINATOR :: char where "BLE_MSG_TERMINATOR = LF"

text \<open>
  The C library the receiver is linked with.  The sources fix neither the width of
  \<open>unsigned int\<close> (16 bits on the ATmega328P) nor what \<open>sscanf\<close> stores for a number
  that an \<open>unsigned int\<close> cannot hold, which ISO C leaves undefined.  Both are parameters:
  \<open>uint_bits\<close> is the width, and \<open>uint_overflow neg v\<close> is what the library's conversion
  yields for the digits of the number \<open>v \<ge> 2 ^ uint_bits\<close>, with \<open>neg\<close> telling whether a
  minus sign came first.  Nothing is assumed of \<open>uint_overflow\<close>.
\<close>

record c_library =
  uint_bits :: nat
  uint_overflow :: "bool \<Rightarrow> nat \<Rightarrow> nat"

text \<open>
  \<open>sscanf\<close>, for the two formats the receiver uses.  The conversion \<open>%u\<close> skips white
  space, reads an optional sign and at least one decimal digit, and stores an
  \<open>unsigned int\<close>: the number the digits denote when it is below \<open>2 ^ uint_bits\<close>, negated
  in \<open>unsigned int\<close> after a minus sign as \<open>strtoul\<close> does, and otherwise what the library
  makes of it, as an \<open>unsigned int\<close>.  \<open>scan_uint\<close> returns the value stored and the input
  left, or \<open>None\<close> when no digit is there.
\<close>

definition scan_uint :: "c_library \<Rightarrow> string \<Rightarrow> (nat \<times> string) option" where
  "scan_uint lib inp =
     (let s1 = dropWhile isspace inp;
          neg = (take 1 s1 = ''-'');
          s2 = (if take 1 s1 = ''-'' \<or> take 1 s1 = ''+'' then drop 1 s1 else s1);
          v = strtol_digits 10 (takeWhile isdigit s2) 0
      in if takeWhile isdigit s2 = [] then None
         else Some (if v < 2 ^ uint_bits lib
                    then (if neg then (2 ^ uint_bits lib - v) mod 2 ^ uint_bits lib else v)
                    else uint_overflow lib neg v mod 2 ^ uint_bits lib,
                    dropWhile isdigit s2))"

text \<open>
  \<open>sscanf(message + 4, "%63[^,],%u", instruction_buf, &distance)\<close>: the number of
  conversions stored (\<open>-1\<close> for \<open>EOF\<close>), and the two variables afterwards, which start
  as the empty string and 0.
\<close>

definition sscanf_nav :: "c_library \<Rightarrow> string \<Rightarrow> int \<times> string \<times> nat" where
  "sscanf_nav lib inp =
     (let instr = takeWhile (\<lambda>c. c \<noteq> CHR '','') (take 63 inp);
          rest = drop (length instr) inp
      in if instr = [] then (if inp = [] then - 1 else 0, [], 0)
         else case rest of
                [] \<Rightarrow> (1, instr, 0)
              | c # r2 \<Rightarrow>
                  if c \<noteq> CHR '','' then (1, instr, 0)
                  else case scan_uint lib r2 of
                         None \<Rightarrow> (1, instr, 0)
                       | Some (distance, _) \<Rightarrow> (2, instr, distance))"

text \<open>\<open>sscanf(message + 7, "%u,%u,%u", &batt, &signals, &speed)\<close>.\<close>

definition sscanf_status :: "c_library \<Rightarrow> string \<Rightarrow> int \<times> nat \<times> nat \<times> nat" where
  "sscanf_status lib inp =
     (case scan_uint lib inp of
        None \<Rightarrow> (if dropWhile isspace inp = [] then - 1 else 0, 0, 0, 0)
      | Some (batt, r1) \<Rightarrow>
          (case r1 of
             [] \<Rightarrow> (1, batt, 0, 0)
           | c1 # r2 \<Rightarrow>
               if c1 \<noteq> CHR '','' then (1, batt, 0, 0)
               else case scan_uint lib r2 of
                      None \<Rightarrow> (1, batt, 0, 0)
                    | Some (signals, r3) \<Rightarrow>
                        (case r3 of
                           [] \<Rightarrow> (2, batt, signals, 0)
                         | c2 # r4 \<Rightarrow>
                             if c2 \<noteq> CHR '','' then (2, batt, signals, 0)
                             else case scan_uint lib r4 of
                                    None \<Rightarrow> (2, batt, signals, 0)
                                  | Some (speed, _) \<Rightarrow> (3, batt, signals, speed))))"

text \<open>\<open>strncpy\<close> and \<open>strcpy\<close> into a character array, from a string.\<close>

definition strncpy :: "char list \<Rightarrow> string \<Rightarrow> nat \<Rightarrow> char list" where
  "strncpy dst src n = take n (src @ replicate n NUL) @ drop n dst"

definition strcpy :: "char list \<Rightarrow> string \<Rightarrow> char list" where
  "strcpy dst src = src @ NUL # drop (length src + 1) dst"

definition parse_ble_message :: "c_library \<Rightarrow> ble_state \<Rightarrow> string \<Rightarrow> ble_state" where
  "parse_ble_message lib s message =
     (if strncmp message ''NAV:'' 4 = 0 then
        (case sscanf_nav lib (drop 4 message) of
           (parsed_count, instruction_buf, distance) \<Rightarrow>
             if parsed_count = 2 then
               s\<lparr>current_nav_data :=
                    (current_nav_data s)
                      \<lparr>instruction := strncpy (instruction (current_nav_data s)) instruction_buf 63,
                       distance_m := of_nat distance,
                       display_nav_data_t.updated := True\<rparr>,
                 is_connected := True\<rparr>
             else s)
      else if strncmp message ''STATUS:'' 7 = 0 then
        (case sscanf_status lib (drop 7 message) of
           (parsed_count, batt, signals, speed) \<Rightarrow>
             if parsed_count = 3 then
               s\<lparr>current_status_data :=
                    (current_status_data s)
                      \<lparr>battery_mv := of_nat batt,
                       signal_status := of_nat signals,
                       display_status_data_t.speed_kmh := of_nat speed,
                       display_status_data_t.updated := True\<rparr>,
                 is_connected := True\<rparr>
             else s)
      else s)"

definition ble_rx_init :: ble_state where
  "ble_rx_init =
     \<lparr>current_status_data =
        \<lparr>battery_mv = 0, signal_status = 0, speed_kmh = 0, updated = False\<rparr>,
      current_nav_data =
        \<lparr>instruction = strcpy (replicate 64 NUL) ''Connecting...'', distance_m = 0,
         updated = False\<rparr>,
      is_connected = False,
      rx_buffer = replicate BLE_RX_BUFFER_LEN NUL,
      rx_buffer_idx = 0\<rparr>"

text \<open>
  \<open>rx_buffer_idx\<close> is a \<open>uint8_t\<close> that is only incremented below
  \<open>BLE_RX_BUFFER_LEN - 1\<close>; a natural number holds it.
\<close>

definition ble_rx_process_char :: "c_library \<Rightarrow> ble_state \<Rightarrow> char \<Rightarrow> ble_state" where
  "ble_rx_process_char lib s received_char =
     (if received_char = BLE_MSG_TERMINATOR then
        (let s1 = (if rx_buffer_idx s > 0
                   then let b = (rx_buffer s)[rx_buffer_idx s := NUL]
                        in parse_ble_message lib (s\<lparr>rx_buffer := b\<rparr>) (c_str b)
                   else s)
         in s1\<lparr>rx_buffer_idx := 0\<rparr>)
      else if rx_buffer_idx s < BLE_RX_BUFFER_LEN - 1 then
        (if CHR '' '' \<le> received_char \<and> received_char \<le> CHR ''~''
         then s\<lparr>rx_buffer := (rx_buffer s)[rx_buffer_idx s := received_char],
                rx_buffer_idx := rx_buffer_idx s + 1\<rparr>
         else s)
      else s\<lparr>rx_buffer_idx := 0\<rparr>)"

definition ble_rx_is_status_available :: "ble_state \<Rightarrow> bool" where
  "ble_rx_is_status_available s = display_status_data_t.updated (current_status_data s)"

definition ble_rx_get_status_data ::
  "ble_state \<Rightarrow> display_status_data_t option \<Rightarrow> bool \<times> display_status_data_t option \<times> ble_state" where
  "ble_rx_get_status_data s data =
     (if data = None \<or> \<not> display_status_data_t.updated (current_status_data s) then (False, data, s)
      else (True, Some (current_status_data s),
            s\<lparr>current_status_data := (current_status_data s)\<lparr>display_status_data_t.updated := False\<rparr>\<rparr>))"

definition ble_rx_is_nav_available :: "ble_state \<Rightarrow> bool" where
  "ble_rx_is_nav_available s = display_nav_data_t.updated (current_nav_data s)"

definition ble_rx_get_nav_data ::
  "ble_state \<Rightarrow> display_nav_data_t option \<Rightarrow> bool \<times> display_nav_data_t option \<times> ble_state" where
  "ble_rx_get_nav_data s data =
     (if data = None \<or> \<not> display_nav_data_t.updated (current_nav_data s) then (False, data, s)
      else (True, Some (current_nav_data s),
            s\<lparr>current_nav_data := (current_nav_data s)\<lparr>display_nav_data_t.updated := False\<rparr>\<rparr>))"

definition ble_rx_is_connected :: "ble_state \<Rightarrow> bool" where
  "ble_rx_is_connected s = is_connected s"

text \<open>The receive loop of \<open>main.c\<close> hands the bytes to \<open>ble_rx_process_char\<close> in arrival order.\<close>

definition ble_feed :: "c_library \<Rightarrow> ble_state \<Rightarrow> char list \<Rightarrow> ble_state" where
  "ble_feed lib s bytes = foldl (ble_rx_process_char lib) s bytes"

text \<open>
  For the properties below: \<open>ble_wf\<close> says that the receive buffer has the length of the C
  array; \<open>ble_out\<close> is what the accessors can show of the state (the two records and the
  connected flag); \<open>printable\<close> is the range the framer accepts; \<open>decimal\<close> is the
  number a string of decimal digits denotes.
\<close>

definition ble_wf :: "ble_state \<Rightarrow> bool" where
  "ble_wf s \<longleftrightarrow> length (rx_buffer s) = BLE_RX_BUFFER_LEN"

definition ble_out :: "ble_state \<Rightarrow> display_status_data_t \<times> display_nav_data_t \<times> bool" where
  "ble_out s = (current_status_data s, current_nav_data s, is_connected s)"

definition printable :: "char \<Rightarrow> bool" where
  "printable c \<longleftrightarrow> CHR '' '' \<le> c \<and> c \<le> CHR ''~''"

definition decimal :: "string \<Rightarrow> nat" where
  "decimal ds = foldl (\<lambda>a c. 10 * a + (of_char c - 48)) 0 ds"

text \<open>
  Two libraries to evaluate the receiver with.  \<open>libc_uint16\<close> has an \<open>unsigned int\<close> of 16
  bits and keeps the low bits of a number out of range.  \<open>libc_uint32\<close> has one of 32 bits
  and converts through an \<open>unsigned long\<close> of 64 bits, which \<open>strtoul\<close> saturates.
\<close>

definition libc_uint16 :: c_library where
  "libc_uint16 = \<lparr>uint_bits = 16, uint_overflow = (\<lambda>neg v. if neg then 65536 - v mod 65536 else v)\<rparr>"


section \<open>Properties of the ring buffer\<close>


lemma unat_succ_less: "(x::'w::len word) < N \<Longrightarrow> unat (x + 1) = unat x + 1"
proof -
  assume a: "x < N"
  then have "unat x < unat N" by (simp add: word_less_nat_alt)
  then have "Suc (unat x) \<le> unat N" by simp
  then have "Suc (unat x) < 2 ^ LENGTH('w)" by (rule le_less_trans[OF _ unsigned_less])
  then have "unat x + unat (1::'w word) < 2 ^ LENGTH('w)" by simp
  then show ?thesis by (simp add: unat_add_lem[THEN iffD1])
qed

lemma rb_wf_init:
  "N \<noteq> 0 \<Longrightarrow> ring_buffer_init (Some r) (Some b) N = Some r' \<Longrightarrow> rb_wf N r' \<and> buffer r' = b \<and> rb_contents r' = []"
  by (auto simp: ring_buffer_init_def rb_wf_def rb_contents_def word_greater_zero_iff)

lemma mod_add_inj_le:
  fixes n :: nat
  assumes "i \<le> j" "j < n" "(t + i) mod n = (t + j) mod n"
  shows "i = j"
proof -
  have "t + i \<le> t + j" using assms(1) by simp
  then have "n dvd (t + j) - (t + i)"
    using assms(3) by (metis mod_eq_dvd_iff_nat)
  then have "n dvd j - i" by simp
  moreover have "j - i < n" using assms by simp
  ultimately have "j - i = 0" by (meson dvd_imp_le not_less zero_less_iff_neq_zero)
  then show ?thesis using assms(1) by simp
qed

lemma mod_add_inj:
  fixes n :: nat
  assumes "i < n" "j < n" "(t + i) mod n = (t + j) mod n"
  shows "i = j"
proof (cases "i \<le> j")
  case True
  then show ?thesis using assms mod_add_inj_le by blast
next
  case False
  then have "j \<le> i" by simp
  then have "j = i" using assms mod_add_inj_le[of j i n t] by simp
  then show ?thesis by simp
qed

lemma rb_wf_write:
  assumes "rb_wf N r" "count r \<noteq> N"
  shows "\<exists>r'. ring_buffer_write (Some r) d = (True, Some r') \<and> rb_wf N r' \<and>
     length (buffer r') = length (buffer r) \<and>
     (unat N \<le> length (buffer r) \<longrightarrow> rb_contents r' = rb_contents r @ [d])"
proof -
  let ?n = "unat N" and ?h = "unat (head r)" and ?t = "unat (tail r)" and ?c = "unat (count r)"
  let ?r' = "r\<lparr>buffer := (buffer r)[unat (head r) := d], head := (head r + 1) mod size_rb r, count := count r + 1\<rparr>"
  from assms have sz: "size_rb r = N" and hN: "head r < N" and tN: "tail r < N"
    and cN: "count r < N" and hd: "?h = (?t + ?c) mod ?n" and N0: "N \<noteq> 0"
    by (auto simp: rb_wf_def)
  have n0: "0 < ?n" using N0 by (simp add: unat_gt_0)
  have h: "?h < ?n" using hN by (simp add: word_less_nat_alt)
  have t: "?t < ?n" using tN by (simp add: word_less_nat_alt)
  have c: "?c < ?n" using cN by (simp add: word_less_nat_alt)
  have w: "ring_buffer_write (Some r) d = (True, Some ?r')"
    using assms(2) sz by (simp add: ring_buffer_write_def ring_buffer_is_full_def)
  have uc: "unat (count r + 1) = ?c + 1" using cN by (rule unat_succ_less)
  have uh: "unat ((head r + 1) mod N) = (?h + 1) mod ?n"
    using hN by (simp add: unat_mod unat_succ_less)
  have "(?h + 1) mod ?n = (?t + (?c + 1)) mod ?n"
    using hd by (metis Suc_eq_plus1 add_Suc_right mod_Suc_eq)
  then have hd': "unat ((head r + 1) mod N) = (?t + unat (count r + 1)) mod ?n"
    using uh uc by simp
  have h': "(head r + 1) mod N < N" using N0 by (simp add: word_mod_less_divisor word_greater_zero_iff)
  have c': "count r + 1 \<le> N" using cN by (rule inc_le)
  have wf: "rb_wf N ?r'"
    using sz N0 h' tN c' hd' by (simp add: rb_wf_def)
  have cont: "rb_contents ?r' = rb_contents r @ [d]" if len: "?n \<le> length (buffer r)"
  proof -
    have neq: "?h \<noteq> (?t + i) mod ?n" if "i < ?c" for i
    proof
      assume e: "?h = (?t + i) mod ?n"
      then have "(?t + i) mod ?n = (?t + ?c) mod ?n" using hd by simp
      then have "i = ?c" using that c mod_add_inj[of i ?n ?c ?t] by simp
      then show False using that by simp
    qed
    have "map (\<lambda>i. (buffer r)[?h := d] ! ((?t + i) mod ?n)) [0..<?c]
         = map (\<lambda>i. buffer r ! ((?t + i) mod ?n)) [0..<?c]"
      using neq by (simp add: nth_list_update_neq)
    moreover have "(buffer r)[?h := d] ! ((?t + ?c) mod ?n) = d"
      using hd h len by simp
    ultimately show ?thesis
      by (simp add: rb_contents_def uc sz)
  qed
  show ?thesis using w wf cont by auto
qed

lemma rb_wf_read:
  assumes "rb_wf N r" "count r \<noteq> 0"
  shows "\<exists>r' b. ring_buffer_read (Some r) (Some x) = (True, Some b, Some r') \<and> rb_wf N r' \<and>
     buffer r' = buffer r \<and> rb_contents r = b # rb_contents r'"
proof -
  let ?n = "unat N" and ?h = "unat (head r)" and ?t = "unat (tail r)" and ?c = "unat (count r)"
  let ?r' = "r\<lparr>tail := (tail r + 1) mod size_rb r, count := count r - 1\<rparr>"
  from assms have sz: "size_rb r = N" and hN: "head r < N" and tN: "tail r < N"
    and cN: "count r \<le> N" and hd: "?h = (?t + ?c) mod ?n" and N0: "N \<noteq> 0"
    by (auto simp: rb_wf_def)
  have c0: "0 < ?c" using assms(2) by (simp add: unat_gt_0)
  have rd: "ring_buffer_read (Some r) (Some x) = (True, Some (buffer r ! ?t), Some ?r')"
    using assms(2) by (simp add: ring_buffer_read_def ring_buffer_is_empty_def)
  have uc: "unat (count r - 1) = ?c - 1" using assms(2) by (rule unat_minus_one)
  have ut: "unat ((tail r + 1) mod N) = (?t + 1) mod ?n"
    using tN by (simp add: unat_mod unat_succ_less)
  have "(?t + 1) + (?c - 1) = ?t + ?c" using c0 by simp
  moreover have "((?t + 1) mod ?n + (?c - 1)) mod ?n = ((?t + 1) + (?c - 1)) mod ?n"
    by (rule mod_add_left_eq)
  ultimately have "(?t + ?c) mod ?n = ((?t + 1) mod ?n + (?c - 1)) mod ?n"
    by simp
  then have hd': "?h = (unat ((tail r + 1) mod N) + unat (count r - 1)) mod ?n"
    using hd ut uc by simp
  have t': "(tail r + 1) mod N < N" using N0 by (simp add: word_mod_less_divisor word_greater_zero_iff)
  have "count r - 1 \<le> count r" using assms(2) by (simp add: word_le_nat_alt uc)
  then have c': "count r - 1 \<le> N" using cN by simp
  have wf: "rb_wf N ?r'"
    using sz N0 hN t' c' hd' by (simp add: rb_wf_def)
  have split: "[0..<?c] = 0 # map Suc [0..<?c - 1]"
    using c0 by (metis Suc_pred' map_Suc_upt upt_conv_Cons)
  have "rb_contents r = buffer r ! ?t # rb_contents ?r'"
    using tN
    apply (simp add: rb_contents_def uc ut sz)
    apply (subst split)
    apply (simp add: o_def mod_add_left_eq word_less_nat_alt)
    done
  then show ?thesis using rd wf by auto
qed


lemma rb_contents_length: "length (rb_contents r) = unat (count r)"
  by (simp add: rb_contents_def)

lemma rb_write_full:
  "count r = size_rb r \<Longrightarrow> ring_buffer_write (Some r) d = (False, Some r)"
  by (simp add: ring_buffer_write_def ring_buffer_is_full_def)

lemma rb_read_empty:
  "count r = 0 \<Longrightarrow> ring_buffer_read (Some r) x = (False, x, Some r)"
  by (simp add: ring_buffer_read_def ring_buffer_is_empty_def)

lemma rb_calls_wf:
  "rb_wf N r \<Longrightarrow> \<exists>r'. rb_calls (Some r) cs = Some r' \<and> rb_wf N r'"
proof (induction cs arbitrary: r)
  case Nil
  then show ?case by simp
next
  case (Cons c cs)
  show ?case
  proof (cases c)
    case (Write d)
    show ?thesis
    proof (cases "count r = N")
      case True
      then have "ring_buffer_write (Some r) d = (False, Some r)"
        using Cons.prems by (simp add: rb_write_full rb_wf_def)
      then show ?thesis using Write Cons by simp
    next
      case False
      then obtain r' where "ring_buffer_write (Some r) d = (True, Some r')" "rb_wf N r'"
        using rb_wf_write[OF Cons.prems False] by blast
      then show ?thesis using Write Cons.IH[of r'] by simp
    qed
  next
    case Read
    show ?thesis
    proof (cases "count r = 0")
      case True
      then show ?thesis using Read Cons by (simp add: rb_read_empty)
    next
      case False
      then obtain r' b where "ring_buffer_read (Some r) (Some 0) = (True, Some b, Some r')" "rb_wf N r'"
        using rb_wf_read[OF Cons.prems False] by blast
      then show ?thesis using Read Cons.IH[of r'] by simp
    qed
  qed
qed

lemma rb_calls_fifo:
  "rb_wf N r \<Longrightarrow> unat N \<le> length (buffer r) \<Longrightarrow>
   \<exists>r'. rb_calls (Some r) cs = Some r' \<and> rb_wf N r' \<and>
     rb_contents r @ rb_written (Some r) cs = rb_read_out (Some r) cs @ rb_contents r'"
proof (induction cs arbitrary: r)
  case Nil
  then show ?case by simp
next
  case (Cons c cs)
  show ?case
  proof (cases c)
    case (Write d)
    show ?thesis
    proof (cases "count r = N")
      case True
      then have "ring_buffer_write (Some r) d = (False, Some r)"
        using Cons.prems by (simp add: rb_write_full rb_wf_def)
      then show ?thesis using Write Cons by simp
    next
      case False
      then obtain r' where w: "ring_buffer_write (Some r) d = (True, Some r')" "rb_wf N r'"
        "length (buffer r') = length (buffer r)" "rb_contents r' = rb_contents r @ [d]"
        using rb_wf_write[OF Cons.prems(1) False, of d] Cons.prems(2) by blast
      then obtain r'' where "rb_calls (Some r') cs = Some r''" "rb_wf N r''"
        "rb_contents r' @ rb_written (Some r') cs = rb_read_out (Some r') cs @ rb_contents r''"
        using Cons.IH[of r'] Cons.prems(2) by auto
      then show ?thesis using Write w by simp
    qed
  next
    case Read
    show ?thesis
    proof (cases "count r = 0")
      case True
      then show ?thesis using Read Cons by (simp add: rb_read_empty)
    next
      case False
      then obtain r' b where rd: "ring_buffer_read (Some r) (Some 0) = (True, Some b, Some r')" "rb_wf N r'"
        "buffer r' = buffer r" "rb_contents r = b # rb_contents r'"
        using rb_wf_read[OF Cons.prems(1) False] by blast
      then obtain r'' where "rb_calls (Some r') cs = Some r''" "rb_wf N r''"
        "rb_contents r' @ rb_written (Some r') cs = rb_read_out (Some r') cs @ rb_contents r''"
        using Cons.IH[of r'] Cons.prems(2) by auto
      then show ?thesis using Read rd by simp
    qed
  qed
qed

text \<open>
  Claim C2.  Take a buffer initialised with a valid struct, a non-null storage pointer and a
  capacity \<open>N > 0\<close>, and run any sequence of write and read calls on it.  After the
  sequence (hence after every call, each prefix being a sequence) the numbers returned by
  \<open>ring_buffer_bytes_available\<close> and \<open>ring_buffer_space_remaining\<close> add up to \<open>N\<close>,
  as natural numbers and therefore without wrap-around in \<open>rb_size_t\<close>; the count is
  at most \<open>N\<close>; and when \<open>ring_buffer_is_full\<close> holds, \<open>ring_buffer_write\<close> returns
  false and hands back the very same buffer: storage, head, tail and count.
\<close>

theorem ring_buffer_capacity_invariant:
  fixes N :: "'w::len word"
  assumes "N \<noteq> 0"
  shows "let rb = rb_calls (ring_buffer_init (Some r0) (Some storage) N) calls in
     unat (ring_buffer_bytes_available rb) + unat (ring_buffer_space_remaining rb) = unat N \<and>
     ring_buffer_bytes_available rb + ring_buffer_space_remaining rb = N \<and>
     ring_buffer_bytes_available rb \<le> N \<and>
     (ring_buffer_is_full rb \<longrightarrow> ring_buffer_write rb d = (False, rb))"
proof -
  obtain r1 where i: "ring_buffer_init (Some r0) (Some storage) N = Some r1"
    using assms by (simp add: ring_buffer_init_def)
  then have "rb_wf N r1" using rb_wf_init assms by blast
  then obtain r where r: "rb_calls (Some r1) calls = Some r" "rb_wf N r"
    using rb_calls_wf by blast
  then have sz: "size_rb r = N" and c: "count r \<le> N" by (auto simp: rb_wf_def)
  have "unat (count r) + unat (N - count r) = unat N"
    using c by (simp add: unat_sub word_le_nat_alt)
  then show ?thesis
    using i r sz c
    by (simp add: ring_buffer_bytes_available_def ring_buffer_space_remaining_def
        ring_buffer_is_full_def ring_buffer_write_def)
qed

theorem ring_buffer_capacity_invariant_witness:
  "(3 :: 8 word) \<noteq> 0 \<and>
   (let rb = rb_calls (ring_buffer_init (Some \<lparr>buffer = [], size_rb = 0, head = 0, tail = 0, count = 0\<rparr>)
                 (Some [0, 0, 0]) (3 :: 8 word)) [Write 7, Write 8, Read, Write 9, Write 10, Write 11]
    in unat (ring_buffer_bytes_available rb) + unat (ring_buffer_space_remaining rb) = 3 \<and>
       ring_buffer_is_full rb \<and> ring_buffer_write rb 12 = (False, rb))"
  using ring_buffer_capacity_invariant [of "3 :: 8 word"
      "\<lparr>buffer = [], size_rb = 0, head = 0, tail = 0, count = 0\<rparr>" "[0, 0, 0]"
      "[Write 7, Write 8, Read, Write 9, Write 10, Write 11]" 12]
  by (simp add: ring_buffer_init_def ring_buffer_write_def ring_buffer_read_def
      ring_buffer_is_full_def ring_buffer_is_empty_def ring_buffer_bytes_available_def
      ring_buffer_space_remaining_def Let_def)


lemma rb_write_abs:
  assumes "rb_wf N r" "unat N \<le> length (buffer r)" "length (rb_contents r) < unat N"
  shows "\<exists>r'. ring_buffer_write (Some r) d = (True, Some r') \<and> rb_wf N r' \<and>
     unat N \<le> length (buffer r') \<and> rb_contents r' = rb_contents r @ [d]"
proof -
  have "count r \<noteq> N" using assms(3) by (auto simp: rb_contents_length)
  from rb_wf_write[OF assms(1) this, of d] assms(2) show ?thesis by auto
qed

lemma rb_read_abs:
  assumes "rb_wf N r" "unat N \<le> length (buffer r)" "rb_contents r = b # bs"
  shows "\<exists>r'. ring_buffer_read (Some r) (Some x) = (True, Some b, Some r') \<and> rb_wf N r' \<and>
     unat N \<le> length (buffer r') \<and> rb_contents r' = bs"
proof -
  have "unat (count r) \<noteq> 0" using assms(3) rb_contents_length[of r] by simp
  then have "count r \<noteq> 0" by auto
  from rb_wf_read[OF assms(1) this, of x] assms(2,3) show ?thesis by auto
qed

lemma rb_abc:
  assumes wf: "rb_wf N r" and len: "unat N \<le> length (buffer r)" and e: "rb_contents r = []"
    and N3: "3 \<le> unat N"
  shows "rb_read_out (Some r) [Write a, Write b, Write c, Read, Read, Read] = [a, b, c]"
proof -
  obtain r1 where 1: "ring_buffer_write (Some r) a = (True, Some r1)" "rb_wf N r1"
     "unat N \<le> length (buffer r1)" "rb_contents r1 = [a]"
    using rb_write_abs[OF wf len, of a] e N3 by auto
  obtain r2 where 2: "ring_buffer_write (Some r1) b = (True, Some r2)" "rb_wf N r2"
     "unat N \<le> length (buffer r2)" "rb_contents r2 = [a, b]"
    using rb_write_abs[OF 1(2) 1(3), of b] 1(4) N3 by auto
  obtain r3 where 3: "ring_buffer_write (Some r2) c = (True, Some r3)" "rb_wf N r3"
     "unat N \<le> length (buffer r3)" "rb_contents r3 = [a, b, c]"
    using rb_write_abs[OF 2(2) 2(3), of c] 2(4) N3 by auto
  obtain r4 where 4: "ring_buffer_read (Some r3) (Some 0) = (True, Some a, Some r4)" "rb_wf N r4"
     "unat N \<le> length (buffer r4)" "rb_contents r4 = [b, c]"
    using rb_read_abs[OF 3(2) 3(3) 3(4)] by blast
  obtain r5 where 5: "ring_buffer_read (Some r4) (Some 0) = (True, Some b, Some r5)" "rb_wf N r5"
     "unat N \<le> length (buffer r5)" "rb_contents r5 = [c]"
    using rb_read_abs[OF 4(2) 4(3) 4(4)] by blast
  obtain r6 where 6: "ring_buffer_read (Some r5) (Some 0) = (True, Some c, Some r6)"
    using rb_read_abs[OF 5(2) 5(3) 5(4)] by blast
  show ?thesis using 1(1) 2(1) 3(1) 4(1) 5(1) 6 by simp
qed

lemma rb_calls_append: "rb_calls rb (xs @ ys) = rb_calls (rb_calls rb xs) ys"
  by (induction xs arbitrary: rb) simp_all

lemma rb_read_out_append:
  "rb_read_out rb (xs @ ys) = rb_read_out rb xs @ rb_read_out (rb_calls rb xs) ys"
proof (induction xs arbitrary: rb)
  case Nil
  then show ?case by simp
next
  case (Cons c xs)
  then show ?case by (cases c) simp_all
qed

lemma rb_written_append:
  "rb_written rb (xs @ ys) = rb_written rb xs @ rb_written (rb_calls rb xs) ys"
proof (induction xs arbitrary: rb)
  case Nil
  then show ?case by simp
next
  case (Cons c xs)
  then show ?case by (cases c) simp_all
qed

lemma rb_writes:
  assumes "rb_wf N r" "unat N \<le> length (buffer r)" "length (rb_contents r) + length ws \<le> unat N"
  shows "\<exists>r'. rb_calls (Some r) (map Write ws) = Some r' \<and> rb_wf N r' \<and>
     unat N \<le> length (buffer r') \<and> rb_contents r' = rb_contents r @ ws \<and>
     rb_written (Some r) (map Write ws) = ws \<and> rb_read_out (Some r) (map Write ws) = []"
  using assms
proof (induction ws arbitrary: r)
  case Nil
  then show ?case by simp
next
  case (Cons w ws)
  have "length (rb_contents r) < unat N" using Cons.prems(3) by simp
  then obtain r1 where 1: "ring_buffer_write (Some r) w = (True, Some r1)" "rb_wf N r1"
     "unat N \<le> length (buffer r1)" "rb_contents r1 = rb_contents r @ [w]"
    using rb_write_abs[OF Cons.prems(1,2), of w] by blast
  have "length (rb_contents r1) + length ws \<le> unat N" using Cons.prems(3) 1(4) by simp
  then obtain r' where "rb_calls (Some r1) (map Write ws) = Some r'" "rb_wf N r'"
     "unat N \<le> length (buffer r')" "rb_contents r' = rb_contents r1 @ ws"
     "rb_written (Some r1) (map Write ws) = ws" "rb_read_out (Some r1) (map Write ws) = []"
    using Cons.IH[OF 1(2,3)] by blast
  then show ?case using 1 by simp
qed

lemma rb_reads:
  assumes "rb_wf N r" "unat N \<le> length (buffer r)" "k \<le> length (rb_contents r)"
  shows "\<exists>r'. rb_calls (Some r) (replicate k Read) = Some r' \<and> rb_wf N r' \<and>
     unat N \<le> length (buffer r') \<and> rb_contents r' = drop k (rb_contents r) \<and>
     rb_read_out (Some r) (replicate k Read) = take k (rb_contents r) \<and>
     rb_written (Some r) (replicate k Read) = []"
  using assms
proof (induction k arbitrary: r)
  case 0
  then show ?case by simp
next
  case (Suc k)
  then obtain b bs where c: "rb_contents r = b # bs" by (cases "rb_contents r") auto
  obtain r1 where 1: "ring_buffer_read (Some r) (Some 0) = (True, Some b, Some r1)" "rb_wf N r1"
     "unat N \<le> length (buffer r1)" "rb_contents r1 = bs"
    using rb_read_abs[OF Suc.prems(1,2) c] by blast
  have "k \<le> length (rb_contents r1)" using Suc.prems(3) c 1(4) by simp
  then obtain r' where "rb_calls (Some r1) (replicate k Read) = Some r'" "rb_wf N r'"
     "unat N \<le> length (buffer r')" "rb_contents r' = drop k (rb_contents r1)"
     "rb_read_out (Some r1) (replicate k Read) = take k (rb_contents r1)"
     "rb_written (Some r1) (replicate k Read) = []"
    using Suc.IH[OF 1(2,3)] by blast
  then show ?case using 1 c by simp
qed

lemma rb_pairs:
  assumes "rb_wf N r" "unat N \<le> length (buffer r)" "rb_contents r = []"
  shows "rb_read_out (Some r) (concat (map (\<lambda>b. [Write b, Read]) bs)) = bs \<and>
         rb_written (Some r) (concat (map (\<lambda>b. [Write b, Read]) bs)) = bs"
  using assms
proof (induction bs arbitrary: r)
  case Nil
  then show ?case by simp
next
  case (Cons b bs)
  have "0 < unat N" using Cons.prems(1) by (simp add: rb_wf_def unat_gt_0)
  then have "length (rb_contents r) < unat N" using Cons.prems(3) by simp
  then obtain r1 where 1: "ring_buffer_write (Some r) b = (True, Some r1)" "rb_wf N r1"
     "unat N \<le> length (buffer r1)" "rb_contents r1 = [b]"
    using rb_write_abs[OF Cons.prems(1,2), of b] Cons.prems(3) by auto
  obtain r2 where 2: "ring_buffer_read (Some r1) (Some 0) = (True, Some b, Some r2)" "rb_wf N r2"
     "unat N \<le> length (buffer r2)" "rb_contents r2 = []"
    using rb_read_abs[OF 1(2,3,4)] by blast
  show ?case using 1(1) 2(1) Cons.IH[OF 2(2,3,4)] by simp
qed

lemma rb_calls_reach:
  "rb_wf N r \<Longrightarrow> unat N \<le> length (buffer r) \<Longrightarrow>
   \<exists>r'. rb_calls (Some r) cs = Some r' \<and> rb_wf N r' \<and> unat N \<le> length (buffer r')"
proof (induction cs arbitrary: r)
  case Nil
  then show ?case by simp
next
  case (Cons c cs)
  show ?case
  proof (cases c)
    case (Write d)
    show ?thesis
    proof (cases "count r = N")
      case True
      then have "ring_buffer_write (Some r) d = (False, Some r)"
        using Cons.prems by (simp add: rb_write_full rb_wf_def)
      then show ?thesis using Write Cons by simp
    next
      case False
      then obtain r' where "ring_buffer_write (Some r) d = (True, Some r')" "rb_wf N r'"
        "length (buffer r') = length (buffer r)"
        using rb_wf_write[OF Cons.prems(1) False, of d] by blast
      then show ?thesis using Write Cons.IH[of r'] Cons.prems(2) by simp
    qed
  next
    case Read
    show ?thesis
    proof (cases "count r = 0")
      case True
      then show ?thesis using Read Cons by (simp add: rb_read_empty)
    next
      case False
      then obtain r' b where "ring_buffer_read (Some r) (Some 0) = (True, Some b, Some r')" "rb_wf N r'"
        "buffer r' = buffer r"
        using rb_wf_read[OF Cons.prems(1) False] by blast
      then show ?thesis using Read Cons.IH[of r'] Cons.prems(2) by simp
    qed
  qed
qed

text \<open>
  Claim C3.  The ring buffer is first-in first-out.  Take a buffer initialised with
  capacity \<open>N > 0\<close> over a storage of at least \<open>N\<close> bytes, and any sequence of calls
  on it, however often the cursors have wrapped past \<open>N\<close>.
  \<^item> The bytes accepted by the writes are, in order, the bytes delivered by the reads
    followed by the bytes still held, oldest first.
  \<^item> Nothing is refused without cause: while the buffer holds a byte a read returns true
    with the oldest byte and removes it, and while it is not full a write is accepted
    and the byte is held last.
  \<^item> So every byte is delivered: writing any bytes that fit and then reading as many
    times as bytes are held delivers all bytes written so far, in the order written;
    and from an empty buffer any number of write and read pairs, three times \<open>N\<close> and
    more, deliver exactly the bytes written.
  \<^item> With \<open>N \<ge> 3\<close>, writing \<open>a\<close>, \<open>b\<close>, \<open>c\<close> to the fresh buffer and reading
    three times delivers \<open>a\<close>, \<open>b\<close>, \<open>c\<close>.
\<close>

theorem ring_buffer_fifo:
  fixes N :: "'w::len word"
  assumes "N \<noteq> 0" and "unat N \<le> length storage"
  shows "let rb0 = ring_buffer_init (Some r0) (Some storage) N in
     (\<exists>r. rb_calls rb0 calls = Some r \<and>
          rb_written rb0 calls = rb_read_out rb0 calls @ rb_contents r \<and>
          length (rb_contents r) = unat (count r) \<and>
          (count r \<noteq> 0 \<longrightarrow>
             (\<exists>b r'. ring_buffer_read (Some r) (Some x) = (True, Some b, Some r') \<and>
                     rb_contents r = b # rb_contents r')) \<and>
          (count r \<noteq> N \<longrightarrow>
             (\<exists>r'. ring_buffer_write (Some r) d = (True, Some r') \<and>
                   rb_contents r' = rb_contents r @ [d])) \<and>
          (unat (count r) + length ws \<le> unat N \<longrightarrow>
             rb_written rb0 (calls @ map Write ws) = rb_written rb0 calls @ ws \<and>
             rb_read_out rb0 (calls @ map Write ws @ replicate (unat (count r) + length ws) Read)
               = rb_written rb0 (calls @ map Write ws)) \<and>
          (count r = 0 \<longrightarrow>
             rb_read_out rb0 (calls @ concat (map (\<lambda>b. [Write b, Read]) bs))
               = rb_read_out rb0 calls @ bs \<and>
             rb_written rb0 (calls @ concat (map (\<lambda>b. [Write b, Read]) bs))
               = rb_read_out rb0 (calls @ concat (map (\<lambda>b. [Write b, Read]) bs)))) \<and>
     (3 \<le> unat N \<longrightarrow> rb_read_out rb0 [Write a, Write b, Write c, Read, Read, Read] = [a, b, c])"
proof -
  obtain r1 where i: "ring_buffer_init (Some r0) (Some storage) N = Some r1"
    using assms by (simp add: ring_buffer_init_def)
  then have wf1: "rb_wf N r1" and b: "buffer r1 = storage" and e: "rb_contents r1 = []"
    using rb_wf_init assms(1) by blast+
  have len1: "unat N \<le> length (buffer r1)" using b assms(2) by simp
  obtain r where r: "rb_calls (Some r1) calls = Some r" and wf: "rb_wf N r"
    and len: "unat N \<le> length (buffer r)"
    using rb_calls_reach[OF wf1 len1] by blast
  obtain r' where "rb_calls (Some r1) calls = Some r'"
    "rb_contents r1 @ rb_written (Some r1) calls = rb_read_out (Some r1) calls @ rb_contents r'"
    using rb_calls_fifo[OF wf1 len1] by blast
  then have fifo: "rb_written (Some r1) calls = rb_read_out (Some r1) calls @ rb_contents r"
    using r e by simp
  have cl: "length (rb_contents r) = unat (count r)" by (rule rb_contents_length)
  have rd: "\<exists>b r'. ring_buffer_read (Some r) (Some x) = (True, Some b, Some r') \<and>
                     rb_contents r = b # rb_contents r'" if "count r \<noteq> 0"
    using rb_wf_read[OF wf that, of x] by blast
  have sz: "size_rb r = N" using wf by (simp add: rb_wf_def)
  have wr: "\<exists>r'. ring_buffer_write (Some r) d = (True, Some r') \<and>
                   rb_contents r' = rb_contents r @ [d]" if "count r \<noteq> N"
    using rb_wf_write[OF wf that, of d] len by blast
  have many: "rb_written (Some r1) (calls @ map Write ws) = rb_written (Some r1) calls @ ws \<and>
             rb_read_out (Some r1) (calls @ map Write ws @ replicate (unat (count r) + length ws) Read)
               = rb_written (Some r1) (calls @ map Write ws)"
    if room: "unat (count r) + length ws \<le> unat N"
  proof -
    obtain r2 where 2: "rb_calls (Some r) (map Write ws) = Some r2" "rb_wf N r2"
      "unat N \<le> length (buffer r2)" "rb_contents r2 = rb_contents r @ ws"
      "rb_written (Some r) (map Write ws) = ws" "rb_read_out (Some r) (map Write ws) = []"
      using rb_writes[OF wf len, of ws] room cl by auto
    have k: "unat (count r) + length ws \<le> length (rb_contents r2)" using 2(4) cl by simp
    obtain r3 where 3: "rb_read_out (Some r2) (replicate (unat (count r) + length ws) Read)
        = take (unat (count r) + length ws) (rb_contents r2)"
      using rb_reads[OF 2(2,3) k] by blast
    have w: "rb_written (Some r1) (calls @ map Write ws) = rb_written (Some r1) calls @ ws"
      by (simp add: rb_written_append r 2(5))
    have "rb_read_out (Some r1) (calls @ map Write ws @ replicate (unat (count r) + length ws) Read)
        = rb_read_out (Some r1) calls @ rb_contents r @ ws"
      using 2(4) cl by (simp add: rb_read_out_append rb_calls_append r 2(1,6) 3)
    then show ?thesis using w fifo by simp
  qed
  have pairs: "rb_read_out (Some r1) (calls @ concat (map (\<lambda>b. [Write b, Read]) bs))
               = rb_read_out (Some r1) calls @ bs \<and>
             rb_written (Some r1) (calls @ concat (map (\<lambda>b. [Write b, Read]) bs))
               = rb_read_out (Some r1) (calls @ concat (map (\<lambda>b. [Write b, Read]) bs))"
    if "count r = 0"
  proof -
    have em: "rb_contents r = []" using that cl by simp
    show ?thesis
      using rb_pairs[OF wf len em, of bs] fifo em
      by (simp add: rb_read_out_append rb_written_append r)
  qed
  have abc: "3 \<le> unat N \<longrightarrow> rb_read_out (Some r1) [Write a, Write b, Write c, Read, Read, Read] = [a, b, c]"
    using rb_abc[OF wf1 len1 e] by blast
  show ?thesis
    unfolding i Let_def using r fifo cl rd wr many pairs abc by blast
qed

theorem ring_buffer_fifo_witness:
  "(3 :: 8 word) \<noteq> 0 \<and> unat (3 :: 8 word) \<le> length [0 :: 8 word, 0, 0] \<and>
   (let rb0 = ring_buffer_init (Some \<lparr>buffer = [], size_rb = 0, head = 0, tail = 0, count = 0\<rparr>)
                 (Some [0, 0, 0]) (3 :: 8 word);
        calls = [Write 1, Write 2, Read, Write 3, Write 4, Write 5, Read, Read, Write 6, Read,
                 Read, Read, Write 7, Write 8, Read]
    in rb_read_out rb0 calls = [1, 2, 3, 4, 6, 7] \<and>
       rb_written rb0 calls = [1, 2, 3, 4, 6, 7, 8] \<and>
       ring_buffer_bytes_available (rb_calls rb0 calls) = 1 \<and>
       ring_buffer_read (rb_calls rb0 calls) (Some 0) =
         (True, Some 8, snd (snd (ring_buffer_read (rb_calls rb0 calls) (Some 0)))) \<and>
       fst (ring_buffer_write (rb_calls rb0 calls) 9) \<and>
       rb_read_out rb0 (calls @ map Write [9, 10] @ replicate (1 + length [9, 10 :: 8 word]) Read)
         = [1, 2, 3, 4, 6, 7, 8, 9, 10] \<and>
       rb_read_out rb0 (concat (map (\<lambda>b. [Write b, Read]) [11, 12, 13, 14, 15, 16, 17, 18, 19]))
         = [11, 12, 13, 14, 15, 16, 17, 18, 19] \<and>
       rb_read_out rb0 [Write 65, Write 66, Write 67, Read, Read, Read] = [65, 66, 67])"
proof -
  have ev: ?thesis by code_simp
  show ?thesis
    using ring_buffer_fifo [of "3 :: 8 word" "[0, 0, 0]"
      "\<lparr>buffer = [], size_rb = 0, head = 0, tail = 0, count = 0\<rparr>"
      "[Write 1, Write 2, Read, Write 3, Write 4, Write 5, Read, Read, Write 6, Read,
                 Read, Read, Write 7, Write 8, Read]" 0 9 "[9, 10]"
      "[11, 12, 13, 14, 15, 16, 17, 18, 19]" 65 66 67]
    by - (rule ev)
qed

section \<open>Properties of the GPS driver\<close>

lemma gps_feed_Nil [simp]: "gps_feed s [] = s"
  by (simp add: gps_feed_def)

lemma gps_feed_Cons [simp]: "gps_feed s (c # cs) = gps_feed (gps_process_char s c) cs"
  by (simp add: gps_feed_def)

lemma gps_feed_append: "gps_feed s (xs @ ys) = gps_feed (gps_feed s xs) ys"
  by (simp add: gps_feed_def)

lemma gps_step_dollar:
  "gps_process_char s CHR ''$'' =
     s\<lparr>nmea_buffer := (nmea_buffer s)[0 := CHR ''$''], nmea_buffer_index := 1, sentence_in_progress := True\<rparr>"
  by (simp add: gps_process_char_def)

lemma gps_step_plain:
  assumes "c \<noteq> CHR ''$''" "c \<noteq> LF" "sentence_in_progress s" "nmea_buffer_index s < NMEA_MAX_SENTENCE_LEN"
  shows "gps_process_char s c =
     s\<lparr>nmea_buffer := (nmea_buffer s)[nmea_buffer_index s := c], nmea_buffer_index := nmea_buffer_index s + 1\<rparr>"
  using assms by (simp add: gps_process_char_def)

lemma gps_step_overflow:
  assumes "c \<noteq> CHR ''$''" "c \<noteq> LF" "sentence_in_progress s" "\<not> nmea_buffer_index s < NMEA_MAX_SENTENCE_LEN"
  shows "gps_process_char s c = s\<lparr>sentence_in_progress := False\<rparr>"
  using assms by (simp add: gps_process_char_def)

lemma gps_step_idle:
  assumes "c \<noteq> CHR ''$''" "\<not> sentence_in_progress s"
  shows "gps_process_char s c = s"
  using assms by (simp add: gps_process_char_def)

lemma gps_feed_idle:
  "\<not> sentence_in_progress s \<Longrightarrow> CHR ''$'' \<notin> set cs \<Longrightarrow> gps_feed s cs = s"
  by (induction cs) (auto simp: gps_step_idle)

lemma gps_feed_body:
  assumes "sentence_in_progress s" "nmea_buffer_index s + length cs \<le> NMEA_MAX_SENTENCE_LEN"
    "nmea_buffer_index s + length cs \<le> length (nmea_buffer s)"
    "CHR ''$'' \<notin> set cs" "LF \<notin> set cs"
  shows "gps_feed s cs =
     s\<lparr>nmea_buffer := take (nmea_buffer_index s) (nmea_buffer s) @ cs
                        @ drop (nmea_buffer_index s + length cs) (nmea_buffer s),
       nmea_buffer_index := nmea_buffer_index s + length cs\<rparr>"
  using assms
proof (induction cs arbitrary: s)
  case Nil
  then show ?case by simp
next
  case (Cons c cs)
  let ?i = "nmea_buffer_index s" and ?b = "nmea_buffer s"
  let ?s1 = "s\<lparr>nmea_buffer := ?b[?i := c], nmea_buffer_index := ?i + 1\<rparr>"
  have i: "?i < NMEA_MAX_SENTENCE_LEN" "?i < length ?b" using Cons.prems by simp_all
  have c: "c \<noteq> CHR ''$''" "c \<noteq> LF" using Cons.prems by auto
  have st: "gps_process_char s c = ?s1"
    using c Cons.prems(1) i(1) by (simp add: gps_step_plain)
  have "gps_feed ?s1 cs = ?s1\<lparr>nmea_buffer := take (nmea_buffer_index ?s1) (nmea_buffer ?s1) @ cs
                        @ drop (nmea_buffer_index ?s1 + length cs) (nmea_buffer ?s1),
       nmea_buffer_index := nmea_buffer_index ?s1 + length cs\<rparr>"
    using Cons.prems by (intro Cons.IH) simp_all
  moreover have "take (?i + 1) (?b[?i := c]) = take ?i ?b @ [c]"
    using i(2) by (simp add: take_Suc_conv_app_nth)
  moreover have "drop (?i + 1 + length cs) (?b[?i := c]) = drop (?i + 1 + length cs) ?b"
    by simp
  ultimately show ?case using st by simp
qed


lemma c_str_append_NUL: "c_str (xs @ NUL # ys) = c_str xs"
  by (induction xs) (simp_all add: c_str_def)

lemma c_str_length_le: "length (c_str b) \<le> length b"
  by (simp add: c_str_def length_takeWhile_le)

lemma split_loop_length:
  "length (snd (split_loop p cnt m cur fin out)) = length out + length p"
  by (induction p cnt m cur fin out rule: split_loop.induct) auto

lemma process_nmea_sentence_snd:
  "snd (process_nmea_sentence s str) = take 1 str @ snd (nmea_split_fields (drop 1 str) NMEA_MAX_FIELDS)"
  by (simp add: process_nmea_sentence_def Let_def case_prod_beta)

lemma process_nmea_sentence_length:
  "length (snd (process_nmea_sentence s str)) = length str"
  by (cases str) (simp_all add: process_nmea_sentence_snd nmea_split_fields_def split_loop_length)

lemma parse_gprmc_frame:
  "nmea_buffer (parse_gprmc s f n) = nmea_buffer s \<and>
   nmea_buffer_index (parse_gprmc s f n) = nmea_buffer_index s \<and>
   sentence_in_progress (parse_gprmc s f n) = sentence_in_progress s"
  unfolding parse_gprmc_def by (cases "n < 12") (simp_all add: Let_def)

lemma parse_gpgga_frame:
  "nmea_buffer (parse_gpgga s f n) = nmea_buffer s \<and>
   nmea_buffer_index (parse_gpgga s f n) = nmea_buffer_index s \<and>
   sentence_in_progress (parse_gpgga s f n) = sentence_in_progress s"
  unfolding parse_gpgga_def by (cases "n < 10") (simp_all add: Let_def)

lemma process_nmea_sentence_frame:
  "nmea_buffer (fst (process_nmea_sentence s str)) = nmea_buffer s \<and>
   nmea_buffer_index (fst (process_nmea_sentence s str)) = nmea_buffer_index s \<and>
   sentence_in_progress (fst (process_nmea_sentence s str)) = sentence_in_progress s"
  by (simp add: process_nmea_sentence_def Let_def case_prod_beta parse_gprmc_frame parse_gpgga_frame)

lemma parse_gprmc_cong:
  assumes "gps_out s = gps_out t"
  shows "gps_out (parse_gprmc s f n) = gps_out (parse_gprmc t f n)"
proof -
  from assms have "current_gps_data s = current_gps_data t" "data_updated s = data_updated t"
    "data_valid_fix s = data_valid_fix t" by (simp_all add: gps_out_def)
  then show ?thesis
    unfolding parse_gprmc_def gps_out_def by (cases "n < 12") (simp_all add: Let_def)
qed

lemma parse_gpgga_cong:
  assumes "gps_out s = gps_out t"
  shows "gps_out (parse_gpgga s f n) = gps_out (parse_gpgga t f n)"
proof -
  from assms have "current_gps_data s = current_gps_data t" "data_updated s = data_updated t"
    "data_valid_fix s = data_valid_fix t" by (simp_all add: gps_out_def)
  then show ?thesis
    unfolding parse_gpgga_def gps_out_def by (cases "n < 10") (simp_all add: Let_def)
qed

lemma process_nmea_sentence_cong:
  "gps_out s = gps_out t \<Longrightarrow>
   gps_out (fst (process_nmea_sentence s str)) = gps_out (fst (process_nmea_sentence t str))"
  unfolding process_nmea_sentence_def Let_def case_prod_beta fst_conv
  by (auto intro: parse_gprmc_cong parse_gpgga_cong)

lemma gps_out_upd [simp]:
  "gps_out (s\<lparr>nmea_buffer := b\<rparr>) = gps_out s"
  "gps_out (s\<lparr>nmea_buffer_index := i\<rparr>) = gps_out s"
  "gps_out (s\<lparr>sentence_in_progress := p\<rparr>) = gps_out s"
  by (simp_all add: gps_out_def)

lemma gps_step_LF:
  assumes "sentence_in_progress s" "nmea_buffer_index s < NMEA_MAX_SENTENCE_LEN"
  shows "gps_process_char s LF =
     (let i = nmea_buffer_index s + 1;
          b1 = (nmea_buffer s)[nmea_buffer_index s := LF, i := NUL];
          b2 = (if i > 1 \<and> b1 ! (i - 2) = CR then b1[i - 2 := NUL] else b1[i - 1 := NUL]);
          s2 = s\<lparr>nmea_buffer_index := i, nmea_buffer := b2\<rparr>;
          s3 = (if nmea_validate_checksum (c_str b2)
                then case process_nmea_sentence s2 (c_str b2) of
                       (s', sentence') \<Rightarrow> s'\<lparr>nmea_buffer := sentence' @ drop (length sentence') b2\<rparr>
                else s2)
      in s3\<lparr>sentence_in_progress := False\<rparr>)"
  using assms by (simp add: gps_process_char_def Let_def)

lemma gps_newline_c_str:
  assumes len: "Suc (Suc (length body)) < length buf"
    and pre: "take (Suc (length body)) buf = CHR ''$'' # body"
  defines "n \<equiv> Suc (length body)"
  defines "b1 \<equiv> buf[n := LF, n + 1 := NUL]"
  defines "b2 \<equiv> (if n + 1 > 1 \<and> b1 ! (n + 1 - 2) = CR then b1[n + 1 - 2 := NUL] else b1[n + 1 - 1 := NUL])"
  shows "c_str b2 = c_str (CHR ''$'' # strip_cr body)"
proof -
  have nlen: "n < length buf" "n - 1 < length buf" using len by (simp_all add: n_def)
  have "b1 ! (n - 1) = buf ! (n - 1)" by (simp add: b1_def n_def)
  also have "\<dots> = take n buf ! (n - 1)" by (simp add: n_def)
  also have "\<dots> = (CHR ''$'' # body) ! length body" using pre by (simp add: n_def)
  also have "\<dots> = last (CHR ''$'' # body)"
    by (metis last_conv_nth length_Cons diff_Suc_1 list.distinct(1))
  finally have b1n: "b1 ! (n - 1) = last (CHR ''$'' # body)" .
  show ?thesis
  proof (cases "last (CHR ''$'' # body) = CR")
    case True
    then have bne: "body \<noteq> []" by auto
    then have lb: "last body = CR" using True by simp
    have b2: "b2 = b1[n - 1 := NUL]" using True b1n by (simp add: b2_def)
    have l2: "n - 1 < length b2" using nlen by (simp add: b2 b1_def)
    have "b2 = take (n - 1) b2 @ b2 ! (n - 1) # drop (Suc (n - 1)) b2"
      using l2 by (rule id_take_nth_drop)
    moreover have "b2 ! (n - 1) = NUL" using nlen by (simp add: b2 b1_def)
    moreover have "take (n - 1) b2 = take (n - 1) buf" by (simp add: b2 b1_def)
    moreover have "take (n - 1) buf = butlast (CHR ''$'' # body)"
      using pre by (metis butlast_take n_def diff_Suc_1 length_Cons take_all order_refl length_take min.absorb2 nlen(1) less_imp_le butlast_conv_take)
    ultimately have "c_str b2 = c_str (butlast (CHR ''$'' # body))"
      by (metis c_str_append_NUL)
    then show ?thesis using bne lb by (simp add: strip_cr_def)
  next
    case False
    then have sc: "strip_cr body = body" by (auto simp: strip_cr_def)
    have b2: "b2 = b1[n := NUL]" using False b1n by (simp add: b2_def)
    have l2: "n < length b2" using nlen by (simp add: b2 b1_def)
    have "b2 = take n b2 @ b2 ! n # drop (Suc n) b2"
      using l2 by (rule id_take_nth_drop)
    moreover have "b2 ! n = NUL" using nlen by (simp add: b2 b1_def)
    moreover have "take n b2 = take n buf" by (simp add: b2 b1_def)
    ultimately have "c_str b2 = c_str (CHR ''$'' # body)"
      using pre by (metis c_str_append_NUL n_def)
    then show ?thesis using sc by simp
  qed
qed


lemma gps_feed_sentence:
  assumes wf: "gps_wf s" and nd: "CHR ''$'' \<notin> set body" and nl: "LF \<notin> set body"
    and len: "length body \<le> 80"
  shows "gps_out (gps_feed s (CHR ''$'' # body @ [LF])) =
           (if nmea_validate_checksum (c_str (CHR ''$'' # strip_cr body))
            then gps_out (fst (process_nmea_sentence s (c_str (CHR ''$'' # strip_cr body))))
            else gps_out s)
         \<and> \<not> sentence_in_progress (gps_feed s (CHR ''$'' # body @ [LF]))
         \<and> gps_wf (gps_feed s (CHR ''$'' # body @ [LF]))"
proof -
  let ?str = "c_str (CHR ''$'' # strip_cr body)"
  define buf where "buf = nmea_buffer s"
  have lbuf: "length buf = 83" using wf by (simp add: gps_wf_def buf_def NMEA_MAX_SENTENCE_LEN_def)
  define sa where "sa = gps_process_char s CHR ''$''"
  have sa: "sentence_in_progress sa" "nmea_buffer_index sa = 1" "nmea_buffer sa = buf[0 := CHR ''$'']"
    "gps_out sa = gps_out s"
    by (simp_all add: sa_def gps_step_dollar buf_def gps_out_def)
  define sb where "sb = gps_feed sa body"
  have sb_eq: "sb = sa\<lparr>nmea_buffer := take (nmea_buffer_index sa) (nmea_buffer sa) @ body
                        @ drop (nmea_buffer_index sa + length body) (nmea_buffer sa),
       nmea_buffer_index := nmea_buffer_index sa + length body\<rparr>"
    unfolding sb_def using sa(1) nd nl len lbuf
    by (intro gps_feed_body) (simp_all add: sa NMEA_MAX_SENTENCE_LEN_def)
  have t1: "take 1 (buf[0 := CHR ''$'']) = [CHR ''$'']"
    using lbuf by (cases buf) simp_all
  have sb: "sentence_in_progress sb" "nmea_buffer_index sb = Suc (length body)"
    "nmea_buffer sb = CHR ''$'' # body @ drop (Suc (length body)) buf"
    "gps_out sb = gps_out s"
    using sa t1 by (simp_all add: sb_eq gps_out_def)
  define bb where "bb = nmea_buffer sb"
  have lbb: "length bb = 83" using lbuf len by (simp add: bb_def sb(3))
  have pre: "take (Suc (length body)) bb = CHR ''$'' # body" by (simp add: bb_def sb(3))
  define n where "n = Suc (length body)"
  define b1 where "b1 = bb[n := LF, n + 1 := NUL]"
  define b2 where "b2 = (if n + 1 > 1 \<and> b1 ! (n + 1 - 2) = CR then b1[n + 1 - 2 := NUL] else b1[n + 1 - 1 := NUL])"
  have cs: "c_str b2 = ?str"
    unfolding b2_def b1_def n_def using lbb len pre
    by (intro gps_newline_c_str) simp_all
  have lb2: "length b2 = 83" by (simp add: b2_def b1_def lbb)
  define s2 where "s2 = sb\<lparr>nmea_buffer_index := n + 1, nmea_buffer := b2\<rparr>"
  have s2o: "gps_out s2 = gps_out s" using sb(4) by (simp add: s2_def gps_out_def)
  define s3 where "s3 = (if nmea_validate_checksum (c_str b2)
                then case process_nmea_sentence s2 (c_str b2) of
                       (s', sentence') \<Rightarrow> s'\<lparr>nmea_buffer := sentence' @ drop (length sentence') b2\<rparr>
                else s2)"
  have fin: "gps_feed s (CHR ''$'' # body @ [LF]) = s3\<lparr>sentence_in_progress := False\<rparr>"
  proof -
    have "gps_feed s (CHR ''$'' # body @ [LF]) = gps_process_char sb LF"
      by (simp add: gps_feed_append sa_def sb_def)
    also have "\<dots> = s3\<lparr>sentence_in_progress := False\<rparr>"
      using sb(1,2) len
      by (simp add: gps_step_LF NMEA_MAX_SENTENCE_LEN_def Let_def s3_def s2_def b2_def b1_def n_def bb_def)
    finally show ?thesis .
  qed
  have out: "gps_out s3 = (if nmea_validate_checksum ?str
            then gps_out (fst (process_nmea_sentence s ?str)) else gps_out s)"
    using s2o process_nmea_sentence_cong[OF s2o, of ?str]
    by (simp add: s3_def cs case_prod_beta)
  have "length (nmea_buffer s3) = 83"
  proof (cases "nmea_validate_checksum (c_str b2)")
    case True
    have "length (snd (process_nmea_sentence s2 (c_str b2))) \<le> length b2"
      by (simp add: process_nmea_sentence_length c_str_length_le)
    then show ?thesis using True lb2 by (simp add: s3_def case_prod_beta)
  next
    case False
    then show ?thesis using lb2 by (simp add: s3_def s2_def)
  qed
  then have "gps_wf (s3\<lparr>sentence_in_progress := False\<rparr>)"
    by (simp add: gps_wf_def NMEA_MAX_SENTENCE_LEN_def)
  then show ?thesis using fin out by simp
qed

lemma gps_out_step_no_LF:
  "c \<noteq> LF \<Longrightarrow> gps_out (gps_process_char s c) = gps_out s"
  by (simp add: gps_process_char_def gps_out_def Let_def)

lemma gps_out_feed_no_LF:
  "LF \<notin> set cs \<Longrightarrow> gps_out (gps_feed s cs) = gps_out s"
  by (induction cs arbitrary: s) (auto simp: gps_out_step_no_LF)

lemma gps_wf_step_no_LF:
  "c \<noteq> LF \<Longrightarrow> gps_wf s \<Longrightarrow> gps_wf (gps_process_char s c)"
  by (simp add: gps_process_char_def gps_wf_def Let_def)

lemma gps_wf_feed_no_LF:
  "LF \<notin> set cs \<Longrightarrow> gps_wf s \<Longrightarrow> gps_wf (gps_feed s cs)"
  by (induction cs arbitrary: s) (auto simp: gps_wf_step_no_LF)

lemma gps_feed_overflow:
  assumes wf: "gps_wf s" and nd: "CHR ''$'' \<notin> set bs" and nl: "LF \<notin> set bs"
    and len: "NMEA_MAX_SENTENCE_LEN \<le> length bs"
  shows "\<not> sentence_in_progress (gps_feed s (CHR ''$'' # bs))"
proof -
  define b1 where "b1 = take 81 bs"
  define c where "c = bs ! 81"
  define b2 where "b2 = drop 82 bs"
  have l: "81 < length bs" using len by (simp add: NMEA_MAX_SENTENCE_LEN_def)
  have bs: "bs = b1 @ c # b2"
    unfolding b1_def c_def b2_def using id_take_nth_drop[OF l] by simp
  have l1: "length b1 = 81" using l by (simp add: b1_def)
  have nd1: "CHR ''$'' \<notin> set b1" "c \<noteq> CHR ''$''" "CHR ''$'' \<notin> set b2"
    using nd bs by auto
  have nl1: "LF \<notin> set b1" "c \<noteq> LF" using nl bs by auto
  define sa where "sa = gps_process_char s CHR ''$''"
  have sa: "sentence_in_progress sa" "nmea_buffer_index sa = 1" "length (nmea_buffer sa) = 83"
    using wf by (simp_all add: sa_def gps_step_dollar gps_wf_def NMEA_MAX_SENTENCE_LEN_def)
  define sb where "sb = gps_feed sa b1"
  have "sb = sa\<lparr>nmea_buffer := take (nmea_buffer_index sa) (nmea_buffer sa) @ b1
                        @ drop (nmea_buffer_index sa + length b1) (nmea_buffer sa),
       nmea_buffer_index := nmea_buffer_index sa + length b1\<rparr>"
    unfolding sb_def using sa nd1(1) nl1(1) l1
    by (intro gps_feed_body) (simp_all add: NMEA_MAX_SENTENCE_LEN_def)
  then have sb: "sentence_in_progress sb" "nmea_buffer_index sb = 82"
    using sa l1 by simp_all
  have "gps_process_char sb c = sb\<lparr>sentence_in_progress := False\<rparr>"
    using nd1(2) nl1(2) sb by (simp add: gps_step_overflow NMEA_MAX_SENTENCE_LEN_def)
  then have "gps_feed sb (c # b2) = sb\<lparr>sentence_in_progress := False\<rparr>"
    using nd1(3) by (simp add: gps_feed_idle)
  moreover have "gps_feed s (CHR ''$'' # bs) = gps_feed sb (c # b2)"
    by (simp add: bs sa_def sb_def gps_feed_append)
  ultimately show ?thesis by simp
qed


text \<open>
  Claim C4.  Overflow of the accumulator discards the sentence in progress.  From any state
  whose buffer has the array's length, let a \<open>$\<close> be followed by at least
  \<open>NMEA_MAX_SENTENCE_LEN\<close> bytes, none of them a newline and none of them a further
  \<open>$\<close> (which would begin a new sentence), and then by any bytes \<open>gap\<close> without
  \<open>$\<close>, such as the rest of the oversized sentence and its newline: the record and both
  flags are as before and the framer is idle.  A short sentence that follows (a \<open>$\<close>, a
  body of at most 80 bytes without \<open>$\<close> or newline, a newline) is then parsed exactly as
  by a framer that has seen nothing before: the record and flags are those that
  \<open>process_nmea_sentence\<close> gives on the sentence's own characters when its checksum is
  right, and the framer is idle again.
\<close>

theorem nmea_overflow_recovery:
  assumes "gps_wf s"
    and "LF \<notin> set bs" and "CHR ''$'' \<notin> set bs" and "NMEA_MAX_SENTENCE_LEN \<le> length bs"
    and "CHR ''$'' \<notin> set gap"
    and "CHR ''$'' \<notin> set body" and "LF \<notin> set body" and "length body \<le> 80"
  shows "gps_out (gps_feed s (CHR ''$'' # bs @ gap)) = gps_out s \<and>
         \<not> sentence_in_progress (gps_feed s (CHR ''$'' # bs @ gap)) \<and>
         gps_out (gps_feed s (CHR ''$'' # bs @ gap @ CHR ''$'' # body @ [LF])) =
           gps_out (gps_feed (s\<lparr>nmea_buffer := replicate (NMEA_MAX_SENTENCE_LEN + 1) NUL,
                                 nmea_buffer_index := 0, sentence_in_progress := False\<rparr>)
                      (CHR ''$'' # body @ [LF])) \<and>
         gps_out (gps_feed s (CHR ''$'' # bs @ gap @ CHR ''$'' # body @ [LF])) =
           (if nmea_validate_checksum (c_str (CHR ''$'' # strip_cr body))
            then gps_out (fst (process_nmea_sentence s (c_str (CHR ''$'' # strip_cr body))))
            else gps_out s) \<and>
         \<not> sentence_in_progress (gps_feed s (CHR ''$'' # bs @ gap @ CHR ''$'' # body @ [LF]))"
proof -
  let ?str = "c_str (CHR ''$'' # strip_cr body)"
  let ?s0 = "s\<lparr>nmea_buffer := replicate (NMEA_MAX_SENTENCE_LEN + 1) NUL,
               nmea_buffer_index := 0, sentence_in_progress := False\<rparr>"
  define s1 where "s1 = gps_feed s (CHR ''$'' # bs)"
  have nl: "LF \<notin> set (CHR ''$'' # bs)" using assms(2) by simp
  have o1: "gps_out s1 = gps_out s" unfolding s1_def using nl by (rule gps_out_feed_no_LF)
  have w1: "gps_wf s1" unfolding s1_def using nl assms(1) by (rule gps_wf_feed_no_LF)
  have idle: "\<not> sentence_in_progress s1"
    unfolding s1_def using assms(1,3,2,4) by (rule gps_feed_overflow)
  have gap: "gps_feed s (CHR ''$'' # bs @ gap) = s1"
    using gps_feed_append[of s "CHR ''$'' # bs" gap] gps_feed_idle[OF idle assms(5)]
    by (simp add: s1_def)
  have app: "gps_feed s (CHR ''$'' # bs @ gap @ CHR ''$'' # body @ [LF]) = gps_feed s1 (CHR ''$'' # body @ [LF])"
    using gps_feed_append[of s "CHR ''$'' # bs @ gap" "CHR ''$'' # body @ [LF]"] gap by simp
  note second = gps_feed_sentence[OF w1 assms(6,7,8)]
  have w0: "gps_wf ?s0" by (simp add: gps_wf_def)
  note fresh = gps_feed_sentence[OF w0 assms(6,7,8)]
  have c1: "gps_out (fst (process_nmea_sentence s1 ?str)) = gps_out (fst (process_nmea_sentence s ?str))"
    using o1 by (rule process_nmea_sentence_cong)
  have c0: "gps_out (fst (process_nmea_sentence ?s0 ?str)) = gps_out (fst (process_nmea_sentence s ?str))"
    by (rule process_nmea_sentence_cong) simp
  have r1: "gps_out (gps_feed s1 (CHR ''$'' # body @ [LF])) =
      (if nmea_validate_checksum ?str then gps_out (fst (process_nmea_sentence s ?str)) else gps_out s)"
    using second c1 o1 by simp
  have r0: "gps_out (gps_feed ?s0 (CHR ''$'' # body @ [LF])) =
      (if nmea_validate_checksum ?str then gps_out (fst (process_nmea_sentence s ?str)) else gps_out s)"
    using fresh c0 by simp
  show ?thesis
    using o1 idle r1 r0 second unfolding app gap by simp
qed

theorem nmea_overflow_recovery_witness:
  "gps_wf gps_init \<and> LF \<notin> set (replicate 100 CHR ''A'') \<and> CHR ''$'' \<notin> set (replicate 100 CHR ''A'') \<and>
   NMEA_MAX_SENTENCE_LEN \<le> length (replicate 100 CHR ''A'') \<and>
   CHR ''$'' \<notin> set (''*00'' @ [CR, LF]) \<and>
   CHR ''$'' \<notin> set (''GPRMC,123456.00,A,4042.768,N,07400.360,W,5.0,90.0,050525,,,A*7D'' @ [CR]) \<and>
   LF \<notin> set (''GPRMC,123456.00,A,4042.768,N,07400.360,W,5.0,90.0,050525,,,A*7D'' @ [CR]) \<and>
   length (''GPRMC,123456.00,A,4042.768,N,07400.360,W,5.0,90.0,050525,,,A*7D'' @ [CR]) \<le> 80 \<and>
   gps_out (gps_feed gps_init (CHR ''$'' # replicate 100 CHR ''A'' @ ''*00'' @ [CR, LF])) = gps_out gps_init \<and>
   \<not> sentence_in_progress (gps_feed gps_init (CHR ''$'' # replicate 100 CHR ''A'' @ ''*00'' @ [CR, LF])) \<and>
   fix_valid (current_gps_data (gps_feed gps_init
      (CHR ''$'' # replicate 100 CHR ''A'' @ (''*00'' @ [CR, LF]) @ CHR ''$'' #
         (''GPRMC,123456.00,A,4042.768,N,07400.360,W,5.0,90.0,050525,,,A*7D'' @ [CR]) @ [LF]))) \<and>
   data_updated (gps_feed gps_init
      (CHR ''$'' # replicate 100 CHR ''A'' @ (''*00'' @ [CR, LF]) @ CHR ''$'' #
         (''GPRMC,123456.00,A,4042.768,N,07400.360,W,5.0,90.0,050525,,,A*7D'' @ [CR]) @ [LF])) \<and>
   speed_knots (current_gps_data (gps_feed gps_init
      (CHR ''$'' # replicate 100 CHR ''A'' @ (''*00'' @ [CR, LF]) @ CHR ''$'' #
         (''GPRMC,123456.00,A,4042.768,N,07400.360,W,5.0,90.0,050525,,,A*7D'' @ [CR]) @ [LF]))) = Atof ''5.0'' \<and>
   \<not> sentence_in_progress (gps_feed gps_init
      (CHR ''$'' # replicate 100 CHR ''A'' @ (''*00'' @ [CR, LF]) @ CHR ''$'' #
         (''GPRMC,123456.00,A,4042.768,N,07400.360,W,5.0,90.0,050525,,,A*7D'' @ [CR]) @ [LF]))"
proof -
  have ev: ?thesis by code_simp
  show ?thesis
    using nmea_overflow_recovery [of gps_init "replicate 100 CHR ''A''" "''*00'' @ [CR, LF]"
        "''GPRMC,123456.00,A,4042.768,N,07400.360,W,5.0,90.0,050525,,,A*7D'' @ [CR]"]
    by - (rule ev)
qed

lemma digit_of_not_special:
  assumes "digit_of d = Some v"
  shows "d \<noteq> CHR ''$''" "d \<noteq> LF" "d \<noteq> NUL" "d \<noteq> CR" "d \<noteq> CHR ''*''" "d \<noteq> CHR '',''"
    "d \<noteq> CHR ''-''" "d \<noteq> CHR ''+''" "\<not> isspace d"
  using assms by (auto simp: digit_of_def Let_def isspace_def split: if_splits)

lemma digit_of_hex_not_x:
  assumes "digit_of d = Some v" "v < 16"
  shows "d \<noteq> CHR ''x''" "d \<noteq> CHR ''X''"
  using assms by (auto simp: digit_of_def Let_def split: if_splits)

lemma checksum_loop_foldl:
  "CHR ''*'' \<notin> set body \<Longrightarrow> checksum_loop body acc = foldl (\<lambda>a c. a XOR of_char c) acc body"
  by (induction body arbitrary: acc) auto

lemma checksum_loop_star:
  "CHR ''*'' \<notin> set body \<Longrightarrow> checksum_loop (body @ CHR ''*'' # r) acc = checksum_loop body acc"
  by (induction body arbitrary: acc) auto

lemma dropWhile_star:
  "CHR ''*'' \<notin> set body \<Longrightarrow> dropWhile (\<lambda>c. c \<noteq> CHR ''*'') (body @ CHR ''*'' # r) = CHR ''*'' # r"
  by (induction body) auto

lemma strtol_hex2:
  assumes "digit_of h1 = Some v1" "v1 < 16" "digit_of h2 = Some v2" "v2 < 16"
  shows "strtol [h1, h2] 16 = int (16 * v1 + v2)"
proof -
  have d: "strtol_digits 16 [h1, h2] 0 = 16 * v1 + v2" using assms by simp
  have "int (16 * v1 + v2) \<le> LONG_MAX" using assms(2,4) by (simp add: LONG_MAX_def)
  then show ?thesis
    using digit_of_not_special[OF assms(1)] digit_of_hex_not_x[OF assms(3,4)] d
    by (simp add: strtol_def Let_def)
qed

lemma nmea_validate_hex2:
  assumes "CHR ''*'' \<notin> set body" "digit_of h1 = Some v1" "v1 < 16" "digit_of h2 = Some v2" "v2 < 16"
  shows "nmea_validate_checksum (CHR ''$'' # body @ CHR ''*'' # [h1, h2]) \<longleftrightarrow>
         foldl (\<lambda>a c. a XOR of_char c) 0 body = (of_nat (16 * v1 + v2) :: 8 word)"
proof -
  have "dropWhile (\<lambda>c. c \<noteq> CHR ''*'') (CHR ''$'' # body @ CHR ''*'' # [h1, h2]) = CHR ''*'' # [h1, h2]"
    using assms(1) by (simp add: dropWhile_star)
  moreover have "nmea_calculate_checksum (CHR ''$'' # body @ CHR ''*'' # [h1, h2]) =
      foldl (\<lambda>a c. a XOR of_char c) 0 body"
    using assms(1) by (simp add: nmea_calculate_checksum_def checksum_loop_star checksum_loop_foldl)
  ultimately show ?thesis
    using strtol_hex2[OF assms(2-5)]
    by (simp add: nmea_validate_checksum_def Let_def del: of_nat_add of_nat_mult)
qed

lemma hex_byte_eq:
  assumes "v1 < 16" "v2 < 16" "w1 < 16" "w2 < 16"
  shows "(of_nat (16 * v1 + v2) :: 8 word) = of_nat (16 * w1 + w2) \<longleftrightarrow> v1 = w1 \<and> v2 = w2"
proof -
  have "(of_nat (16 * v1 + v2) :: 8 word) = of_nat (16 * w1 + w2) \<longleftrightarrow>
        (16 * v1 + v2) mod 256 = (16 * w1 + w2) mod 256"
    by (simp add: word_of_nat_eq_iff take_bit_eq_mod del: of_nat_add of_nat_mult)
  also have "\<dots> \<longleftrightarrow> 16 * v1 + v2 = 16 * w1 + w2" using assms by simp
  also have "\<dots> \<longleftrightarrow> v1 = w1 \<and> v2 = w2"
  proof
    assume e: "16 * v1 + v2 = 16 * w1 + w2"
    have "(16 * v1 + v2) div 16 = v1" "(16 * w1 + w2) div 16 = w1"
      "(16 * v1 + v2) mod 16 = v2" "(16 * w1 + w2) mod 16 = w2"
      using assms by simp_all
    with e show "v1 = w1 \<and> v2 = w2" by metis
  next
    assume "v1 = w1 \<and> v2 = w2"
    then show "16 * v1 + v2 = 16 * w1 + w2" by simp
  qed
  finally show ?thesis .
qed


lemma strip_cr_snoc: "strip_cr (xs @ [CR]) = xs"
  by (simp add: strip_cr_def)

lemma c_str_id: "NUL \<notin> set xs \<Longrightarrow> c_str xs = xs"
  by (induction xs) (auto simp: c_str_def)

lemma parse_gprmc_result:
  "12 \<le> n \<Longrightarrow>
     fix_valid (current_gps_data (parse_gprmc s f n)) = (first_char (f ! 2) = CHR ''A'') \<and>
     seen_rmc (current_gps_data (parse_gprmc s f n)) \<and>
     data_updated (parse_gprmc s f n) \<and>
     data_valid_fix (parse_gprmc s f n) = (first_char (f ! 2) = CHR ''A'')"
  unfolding parse_gprmc_def by (simp add: Let_def)

lemma rmc_example_chars:
  "CHR ''$'' \<notin> set rmc_example" "LF \<notin> set rmc_example" "NUL \<notin> set rmc_example"
  "CHR ''*'' \<notin> set rmc_example" "length rmc_example = 60"
  by (simp_all add: rmc_example_def)

lemma rmc_example_xor:
  "foldl (\<lambda>a c. a XOR of_char c) 0 rmc_example = (of_nat (16 * 7 + 13) :: 8 word)"
  by code_simp

lemma rmc_example_fields:
  "let flds = fst (nmea_split_fields (rmc_example @ CHR ''*'' # r) NMEA_MAX_FIELDS)
   in length flds = 13 \<and> flds ! 0 = ''GPRMC'' \<and> flds ! 2 = ''A''"
  by (simp add: rmc_example_def nmea_split_fields_def NMEA_MAX_FIELDS_def)

lemma strncmp_GPRMC: "strncmp ''GPRMC'' ''GPRMC'' 5 = 0"
  by code_simp

lemma digit_of_7D: "digit_of CHR ''7'' = Some 7" "digit_of CHR ''D'' = Some 13"
  "digit_of CHR ''6'' = Some 6" "digit_of CHR ''E'' = Some 14"
  by (simp_all add: digit_of_def)

lemma rmc_example_feed:
  assumes wf: "gps_wf s" and h1: "digit_of h1 = Some v1" "v1 < 16" and h2: "digit_of h2 = Some v2" "v2 < 16"
  defines "t \<equiv> gps_feed s (CHR ''$'' # rmc_example @ CHR ''*'' # [h1, h2] @ [CR, LF])"
  shows "v1 = 7 \<and> v2 = 13 \<longrightarrow> fix_valid (current_gps_data t) \<and> data_updated t \<and> data_valid_fix t"
    and "\<not> (v1 = 7 \<and> v2 = 13) \<longrightarrow> gps_out t = gps_out s"
proof -
  define body where "body = rmc_example @ CHR ''*'' # [h1, h2] @ [CR]"
  let ?str = "CHR ''$'' # rmc_example @ CHR ''*'' # [h1, h2]"
  note n1 = digit_of_not_special[OF h1(1)] and n2 = digit_of_not_special[OF h2(1)]
  have t: "t = gps_feed s (CHR ''$'' # body @ [LF])" by (simp add: t_def body_def)
  have b: "CHR ''$'' \<notin> set body" "LF \<notin> set body" "length body \<le> 80"
    using n1 n2 rmc_example_chars by (auto simp: body_def)
  have "strip_cr body = rmc_example @ CHR ''*'' # [h1, h2]"
    using strip_cr_snoc[of "rmc_example @ CHR ''*'' # [h1, h2]"] by (simp add: body_def)
  moreover have "NUL \<notin> set ?str" using n1 n2 rmc_example_chars by auto
  ultimately have str: "c_str (CHR ''$'' # strip_cr body) = ?str" by (simp add: c_str_id)
  have v: "nmea_validate_checksum ?str \<longleftrightarrow> v1 = 7 \<and> v2 = 13"
    using nmea_validate_hex2[OF rmc_example_chars(4) h1 h2] hex_byte_eq[of 7 13 v1 v2] h1(2) h2(2)
    by (auto simp: rmc_example_xor simp del: of_nat_add of_nat_mult)
  note fs = gps_feed_sentence[OF wf b]
  have out: "gps_out t = (if v1 = 7 \<and> v2 = 13 then gps_out (fst (process_nmea_sentence s ?str)) else gps_out s)"
    using fs by (simp add: t str v)
  have p: "fst (process_nmea_sentence s ?str) =
      parse_gprmc s (fst (nmea_split_fields (rmc_example @ CHR ''*'' # [h1, h2]) NMEA_MAX_FIELDS)) 13"
    using rmc_example_fields[of "[h1, h2]"]
    by (auto simp add: process_nmea_sentence_def Let_def case_prod_beta strncmp_GPRMC)
  have "fix_valid (current_gps_data (fst (process_nmea_sentence s ?str))) \<and>
        data_updated (fst (process_nmea_sentence s ?str)) \<and>
        data_valid_fix (fst (process_nmea_sentence s ?str))"
    using rmc_example_fields[of "[h1, h2]"]
    by (simp add: p parse_gprmc_result Let_def first_char_def)
  then have "gps_out t = gps_out (fst (process_nmea_sentence s ?str)) \<Longrightarrow>
     fix_valid (current_gps_data t) \<and> data_updated t \<and> data_valid_fix t"
    by (simp add: gps_out_def)
  then show "v1 = 7 \<and> v2 = 13 \<longrightarrow> fix_valid (current_gps_data t) \<and> data_updated t \<and> data_valid_fix t"
    using out by simp
  show "\<not> (v1 = 7 \<and> v2 = 13) \<longrightarrow> gps_out t = gps_out s"
    using out by simp
qed

text \<open>
  Claim C1, as the driver has it.  The example sentence of the specification is printed
  with the checksum \<open>6E\<close>, but the exclusive or of its characters between \<open>$\<close> and
  \<open>*\<close> is \<open>7D\<close>, so the driver drops the sentence as printed.  From any state whose
  buffer has the array's length: the sentence with \<open>*7D\<close>, fed byte by byte, sets
  \<open>fix_valid\<close>, the updated flag and the validity flag; with either digit of \<open>7D\<close>
  replaced by a hexadecimal digit of another value, and with \<open>6E\<close>, the record and both
  flags stay as they were.  In general a sentence ending in \<open>*\<close> and two hexadecimal
  digits passes \<open>nmea_validate_checksum\<close> exactly when the exclusive or of the
  characters strictly between \<open>$\<close> and \<open>*\<close> is the byte the two digits denote.
\<close>
theorem nmea_checksum_acceptance:
  assumes "gps_wf s"
  shows "(let t = gps_feed s (CHR ''$'' # rmc_example @ ''*7D'' @ [CR, LF])
          in fix_valid (current_gps_data t) \<and> data_updated t \<and> data_valid_fix t) \<and>
         (\<forall>d v. digit_of d = Some v \<and> v < 16 \<and> v \<noteq> 7 \<longrightarrow>
            gps_out (gps_feed s (CHR ''$'' # rmc_example @ CHR ''*'' # [d, CHR ''D''] @ [CR, LF])) = gps_out s) \<and>
         (\<forall>d v. digit_of d = Some v \<and> v < 16 \<and> v \<noteq> 13 \<longrightarrow>
            gps_out (gps_feed s (CHR ''$'' # rmc_example @ CHR ''*'' # [CHR ''7'', d] @ [CR, LF])) = gps_out s) \<and>
         gps_out (gps_feed s (CHR ''$'' # rmc_example @ ''*6E'' @ [CR, LF])) = gps_out s \<and>
         (\<forall>body h1 h2 v1 v2.
            CHR ''*'' \<notin> set body \<and> digit_of h1 = Some v1 \<and> v1 < 16 \<and> digit_of h2 = Some v2 \<and> v2 < 16 \<longrightarrow>
            (nmea_validate_checksum (CHR ''$'' # body @ CHR ''*'' # [h1, h2]) \<longleftrightarrow>
             foldl (\<lambda>a c. a XOR of_char c) 0 body = (of_nat (16 * v1 + v2) :: 8 word)))"
proof -
  have a: "let t = gps_feed s (CHR ''$'' # rmc_example @ ''*7D'' @ [CR, LF])
          in fix_valid (current_gps_data t) \<and> data_updated t \<and> data_valid_fix t"
    using rmc_example_feed(1)[OF assms digit_of_7D(1) _ digit_of_7D(2), of ] by (simp add: Let_def)
  have b: "gps_out (gps_feed s (CHR ''$'' # rmc_example @ CHR ''*'' # [d, CHR ''D''] @ [CR, LF])) = gps_out s"
    if "digit_of d = Some v" "v < 16" "v \<noteq> 7" for d v
    using rmc_example_feed(2)[OF assms that(1,2) digit_of_7D(2)] that(3) by simp
  have c: "gps_out (gps_feed s (CHR ''$'' # rmc_example @ CHR ''*'' # [CHR ''7'', d] @ [CR, LF])) = gps_out s"
    if "digit_of d = Some v" "v < 16" "v \<noteq> 13" for d v
    using rmc_example_feed(2)[OF assms digit_of_7D(1) _ that(1,2)] that(3) by simp
  have d: "gps_out (gps_feed s (CHR ''$'' # rmc_example @ ''*6E'' @ [CR, LF])) = gps_out s"
    using rmc_example_feed(2)[OF assms digit_of_7D(3) _ digit_of_7D(4)] by simp
  have e: "nmea_validate_checksum (CHR ''$'' # body @ CHR ''*'' # [h1, h2]) \<longleftrightarrow>
             foldl (\<lambda>a c. a XOR of_char c) 0 body = (of_nat (16 * v1 + v2) :: 8 word)"
    if "CHR ''*'' \<notin> set body" "digit_of h1 = Some v1" "v1 < 16" "digit_of h2 = Some v2" "v2 < 16"
    for body h1 h2 v1 v2
    using that by (rule nmea_validate_hex2)
  show ?thesis using a b c d e by blast
qed

theorem nmea_checksum_acceptance_witness:
  "gps_wf gps_init \<and>
   fix_valid (current_gps_data (gps_feed gps_init
      (''$GPRMC,123456.00,A,4042.768,N,07400.360,W,5.0,90.0,050525,,,A*7D'' @ [CR, LF]))) \<and>
   data_updated (gps_feed gps_init
      (''$GPRMC,123456.00,A,4042.768,N,07400.360,W,5.0,90.0,050525,,,A*7D'' @ [CR, LF])) \<and>
   digit_of CHR ''5'' = Some 5 \<and> (5::nat) < 16 \<and> (5::nat) \<noteq> 7 \<and>
   gps_out (gps_feed gps_init
      (''$GPRMC,123456.00,A,4042.768,N,07400.360,W,5.0,90.0,050525,,,A*5D'' @ [CR, LF])) = gps_out gps_init \<and>
   digit_of CHR ''c'' = Some 12 \<and> (12::nat) < 16 \<and> (12::nat) \<noteq> 13 \<and>
   gps_out (gps_feed gps_init
      (''$GPRMC,123456.00,A,4042.768,N,07400.360,W,5.0,90.0,050525,,,A*7c'' @ [CR, LF])) = gps_out gps_init \<and>
   CHR ''*'' \<notin> set ''GPRMC,1,2,3'' \<and> digit_of CHR ''5'' = Some 5 \<and> digit_of CHR ''7'' = Some 7 \<and>
   nmea_validate_checksum ''$GPRMC,1,2,3*57'' \<and>
   foldl (\<lambda>a c. a XOR of_char c) 0 ''GPRMC,1,2,3'' = (of_nat (16 * 5 + 7) :: 8 word)"
proof -
  have ev: ?thesis by code_simp
  show ?thesis
    using nmea_checksum_acceptance [of gps_init]
    by - (rule ev)
qed

theorem nmea_checksum_6E_counterexample:
  "\<not> fix_valid (current_gps_data (gps_feed gps_init
      (''$GPRMC,123456.00,A,4042.768,N,07400.360,W,5.0,90.0,050525,,,A*6E'' @ [CR, LF]))) \<and>
   \<not> data_updated (gps_feed gps_init
      (''$GPRMC,123456.00,A,4042.768,N,07400.360,W,5.0,90.0,050525,,,A*6E'' @ [CR, LF])) \<and>
   nmea_calculate_checksum ''$GPRMC,123456.00,A,4042.768,N,07400.360,W,5.0,90.0,050525,,,A*6E'' = 0x7D"
  by code_simp

lemma split_loop_count:
  "length (fst (split_loop p cnt m cur fin out))
     \<le> Suc (length fin + count_list (takeWhile (\<lambda>c. c \<noteq> CHR ''*'') p) CHR '','')"
  by (induction p cnt m cur fin out rule: split_loop.induct) auto

lemma split_loop_first:
  "\<exists>t ts. fst (split_loop p cnt m cur fin out) = rev fin @ (rev cur @ t) # ts"
proof (induction p cnt m cur fin out rule: split_loop.induct)
  case (1 cnt max_fields cur fin out)
  then show ?case by simp
next
  case (2 c cs cnt max_fields cur fin out)
  show ?case
  proof (cases "c = CHR ''*''")
    case True
    then show ?thesis by simp
  next
    case star: False
    show ?thesis
    proof (cases "cnt < max_fields")
      case False
      then show ?thesis using star by simp
    next
      case lt: True
      show ?thesis
      proof (cases "c = CHR '',''")
        case True
        then obtain t ts where
          "fst (split_loop cs (cnt + 1) max_fields [] (rev cur # fin) (NUL # out)) = rev (rev cur # fin) @ (rev [] @ t) # ts"
          using 2(1)[OF star] lt by blast
        then have "fst (split_loop (c # cs) cnt max_fields cur fin out) = rev fin @ (rev cur @ []) # (t # ts)"
          using True star lt by simp
        then show ?thesis by blast
      next
        case False
        then obtain t ts where
          "fst (split_loop cs cnt max_fields (c # cur) fin (c # out)) = rev fin @ (rev (c # cur) @ t) # ts"
          using 2(2)[OF star] lt by blast
        then have "fst (split_loop (c # cs) cnt max_fields cur fin out) = rev fin @ (rev cur @ (c # t)) # ts"
          using False star lt by simp
        then show ?thesis by blast
      qed
    qed
  qed
qed

lemma count_takeWhile_prefix:
  "count_list (takeWhile P xs) c \<le> count_list (takeWhile P (xs @ ys)) c"
  by (induction xs) auto

lemma parse_gprmc_short: "n < 12 \<Longrightarrow> parse_gprmc s f n = s"
  by (simp add: parse_gprmc_def)

lemma strip_cr_append:
  "tag \<noteq> [] \<Longrightarrow> last tag \<noteq> CR \<Longrightarrow> strip_cr (tag @ r) = tag @ strip_cr r"
  by (cases "r = []") (simp_all add: strip_cr_def butlast_append)

lemma strip_cr_prefix: "\<exists>z. r = strip_cr r @ z"
  by (metis strip_cr_def append_Nil2 append_butlast_last_id)

lemma c_str_prefix: "\<exists>z. x = c_str x @ z"
  by (metis c_str_def takeWhile_dropWhile_id)

lemma c_str_append_clean: "NUL \<notin> set tag \<Longrightarrow> c_str (tag @ x) = tag @ c_str x"
  by (induction tag) (auto simp: c_str_def)

lemma rmc_tag_short_process:
  assumes tag: "tag = ''GPRMC'' \<or> tag = ''GNRMC''"
    and cnt: "count_list (takeWhile (\<lambda>c. c \<noteq> CHR ''*'') (tag @ r)) CHR '','' < 11"
  shows "fst (process_nmea_sentence s (c_str (CHR ''$'' # strip_cr (tag @ r)))) = s"
proof -
  have tne: "tag \<noteq> []" "last tag \<noteq> CR" "NUL \<notin> set tag" using tag by auto
  define B where "B = c_str (strip_cr r)"
  have str: "c_str (CHR ''$'' # strip_cr (tag @ r)) = CHR ''$'' # tag @ B"
    using c_str_append_clean[of "CHR ''$'' # tag" "strip_cr r"] tne
    by (simp add: strip_cr_append B_def)
  obtain z1 where "r = strip_cr r @ z1" using strip_cr_prefix by blast
  moreover obtain z2 where "strip_cr r = B @ z2" using c_str_prefix B_def by blast
  ultimately have "tag @ r = (tag @ B) @ (z2 @ z1)" by simp
  then have "count_list (takeWhile (\<lambda>c. c \<noteq> CHR ''*'') (tag @ B)) CHR '',''
        \<le> count_list (takeWhile (\<lambda>c. c \<noteq> CHR ''*'') (tag @ r)) CHR '',''"
    using count_takeWhile_prefix[of "\<lambda>c. c \<noteq> CHR ''*''" "tag @ B" "CHR '',''" "z2 @ z1"] by simp
  then have c: "count_list (takeWhile (\<lambda>c. c \<noteq> CHR ''*'') (tag @ B)) CHR '','' < 11"
    using cnt by simp
  define flds where "flds = fst (nmea_split_fields (tag @ B) NMEA_MAX_FIELDS)"
  have n: "length flds < 12"
    using split_loop_count[of "tag @ B" 1 NMEA_MAX_FIELDS "[]" "[]" "[]"] c
    by (simp add: flds_def nmea_split_fields_def)
  have "flds = fst (split_loop B 1 NMEA_MAX_FIELDS (rev tag) [] (rev tag))"
    using tag by (auto simp: flds_def nmea_split_fields_def NMEA_MAX_FIELDS_def)
  then obtain t ts where f: "flds = (tag @ t) # ts"
    using split_loop_first[of B 1 NMEA_MAX_FIELDS "rev tag" "[]" "rev tag"] by auto
  have cmp: "strncmp (flds ! 0) ''GPRMC'' 5 = 0 \<or> strncmp (flds ! 0) ''GNRMC'' 5 = 0"
    using tag by (auto simp: f eval_nat_numeral)
  have "fst (process_nmea_sentence s (CHR ''$'' # tag @ B)) = parse_gprmc s flds (length flds)"
    using cmp f by (simp add: process_nmea_sentence_def Let_def case_prod_beta flds_def[symmetric])
  then show ?thesis using n by (simp add: str parse_gprmc_short)
qed

text \<open>
  Claim C8.  A \<open>GPRMC\<close> or \<open>GNRMC\<close> sentence with fewer than 12 comma-separated fields
  (fewer than 11 commas before the \<open>*\<close>) changes nothing: whatever the state, and
  whether or not its checksum is right, the record, the updated flag and the validity flag
  after its newline are those from before its \<open>$\<close>.  The sentence is a \<open>$\<close>, a body
  of at most 80 bytes without \<open>$\<close> or newline, and a newline.
\<close>
theorem rmc_too_few_fields:
  assumes "gps_wf s"
    and "CHR ''$'' \<notin> set body" and "LF \<notin> set body" and "length body \<le> 80"
    and "take 5 body = ''GPRMC'' \<or> take 5 body = ''GNRMC''"
    and "count_list (takeWhile (\<lambda>c. c \<noteq> CHR ''*'') body) CHR '','' < 11"
  shows "current_gps_data (gps_feed s (CHR ''$'' # body @ [LF])) = current_gps_data s \<and>
         data_updated (gps_feed s (CHR ''$'' # body @ [LF])) = data_updated s \<and>
         data_valid_fix (gps_feed s (CHR ''$'' # body @ [LF])) = data_valid_fix s"
proof -
  define tag where "tag = take 5 body"
  define r where "r = drop 5 body"
  have b: "body = tag @ r" by (simp add: tag_def r_def)
  have tag: "tag = ''GPRMC'' \<or> tag = ''GNRMC''" using assms(5) by (simp add: tag_def)
  have "fst (process_nmea_sentence s (c_str (CHR ''$'' # strip_cr (tag @ r)))) = s"
    using tag assms(6) unfolding b by (rule rmc_tag_short_process)
  then have "gps_out (gps_feed s (CHR ''$'' # body @ [LF])) = gps_out s"
    using gps_feed_sentence[OF assms(1-4)] by (simp add: b)
  then show ?thesis by (simp add: gps_out_def)
qed

theorem rmc_too_few_fields_witness:
  "gps_wf gps_init \<and> CHR ''$'' \<notin> set (''GPRMC,1,2,3*57'' @ [CR]) \<and> LF \<notin> set (''GPRMC,1,2,3*57'' @ [CR]) \<and>
   length (''GPRMC,1,2,3*57'' @ [CR]) \<le> 80 \<and> take 5 (''GPRMC,1,2,3*57'' @ [CR]) = ''GPRMC'' \<and>
   count_list (takeWhile (\<lambda>c. c \<noteq> CHR ''*'') (''GPRMC,1,2,3*57'' @ [CR])) CHR '','' < 11 \<and>
   nmea_validate_checksum ''$GPRMC,1,2,3*57'' \<and>
   current_gps_data (gps_feed gps_init (''$GPRMC,1,2,3*57'' @ [CR, LF])) = current_gps_data gps_init \<and>
   \<not> data_updated (gps_feed gps_init (''$GPRMC,1,2,3*57'' @ [CR, LF])) \<and>
   \<not> data_valid_fix (gps_feed gps_init (''$GPRMC,1,2,3*57'' @ [CR, LF]))"
proof -
  have ev: ?thesis by code_simp
  show ?thesis
    using rmc_too_few_fields [of gps_init "''GPRMC,1,2,3*57'' @ [CR]"]
    by - (rule ev)
qed

text \<open>
  Claim C5, where the driver departs from it.  After an \<open>RMC\<close> sentence with status
  \<open>V\<close>, a \<open>GGA\<close> sentence with fix quality 1 (both with correct checksums) is parsed,
  \<open>seen_gga\<close> is set and \<open>fix_quality\<close> is 1, yet \<open>fix_valid\<close> and the validity
  flag stay false: \<open>parse_gpgga\<close> looks for the \<open>V\<close> in field 2 of the \<open>GGA\<close>
  sentence itself, which is the latitude.  The same \<open>GGA\<close> sentence alone, no
  \<open>RMC\<close> sentence seen, does set \<open>fix_valid\<close>.
\<close>
theorem gga_after_void_rmc_keeps_fix_invalid:
  "seen_rmc (current_gps_data (gps_feed gps_init
      (''$GPRMC,123456.00,V,4042.768,N,07400.360,W,5.0,90.0,050525,,,N*65'' @ [CR, LF] @
       ''$GPGGA,123456.00,4042.768,N,07400.360,W,1,08,0.9,10.0,M,-34.0,M,,*6E'' @ [CR, LF]))) \<and>
   seen_gga (current_gps_data (gps_feed gps_init
      (''$GPRMC,123456.00,V,4042.768,N,07400.360,W,5.0,90.0,050525,,,N*65'' @ [CR, LF] @
       ''$GPGGA,123456.00,4042.768,N,07400.360,W,1,08,0.9,10.0,M,-34.0,M,,*6E'' @ [CR, LF]))) \<and>
   fix_quality (current_gps_data (gps_feed gps_init
      (''$GPRMC,123456.00,V,4042.768,N,07400.360,W,5.0,90.0,050525,,,N*65'' @ [CR, LF] @
       ''$GPGGA,123456.00,4042.768,N,07400.360,W,1,08,0.9,10.0,M,-34.0,M,,*6E'' @ [CR, LF]))) = 1 \<and>
   \<not> fix_valid (current_gps_data (gps_feed gps_init
      (''$GPRMC,123456.00,V,4042.768,N,07400.360,W,5.0,90.0,050525,,,N*65'' @ [CR, LF] @
       ''$GPGGA,123456.00,4042.768,N,07400.360,W,1,08,0.9,10.0,M,-34.0,M,,*6E'' @ [CR, LF]))) \<and>
   \<not> data_valid_fix (gps_feed gps_init
      (''$GPRMC,123456.00,V,4042.768,N,07400.360,W,5.0,90.0,050525,,,N*65'' @ [CR, LF] @
       ''$GPGGA,123456.00,4042.768,N,07400.360,W,1,08,0.9,10.0,M,-34.0,M,,*6E'' @ [CR, LF])) \<and>
   fix_valid (current_gps_data (gps_feed gps_init
      (''$GPGGA,123456.00,4042.768,N,07400.360,W,1,08,0.9,10.0,M,-34.0,M,,*6E'' @ [CR, LF])))"
  by code_simp

section \<open>Properties of the telemetry receiver\<close>

lemma ble_feed_Nil [simp]: "ble_feed u s [] = s"
  by (simp add: ble_feed_def)

lemma ble_feed_Cons [simp]: "ble_feed u s (c # cs) = ble_feed u (ble_rx_process_char u s c) cs"
  by (simp add: ble_feed_def)

lemma ble_feed_append: "ble_feed u s (xs @ ys) = ble_feed u (ble_feed u s xs) ys"
  by (simp add: ble_feed_def)

lemma printable_not_special:
  assumes "printable c"
  shows "c \<noteq> BLE_MSG_TERMINATOR" "c \<noteq> NUL" "c \<noteq> LF"
  using assms by (auto simp: printable_def BLE_MSG_TERMINATOR_def less_eq_char_def)

lemma ble_step_printable:
  assumes "printable c" "rx_buffer_idx s < BLE_RX_BUFFER_LEN - 1"
  shows "ble_rx_process_char u s c =
     s\<lparr>rx_buffer := (rx_buffer s)[rx_buffer_idx s := c], rx_buffer_idx := rx_buffer_idx s + 1\<rparr>"
  using assms printable_not_special(1)[OF assms(1)]
  by (simp add: ble_rx_process_char_def printable_def)

lemma ble_feed_printable:
  assumes "\<forall>c\<in>set cs. printable c" "rx_buffer_idx s + length cs \<le> BLE_RX_BUFFER_LEN - 1"
    "rx_buffer_idx s + length cs \<le> length (rx_buffer s)"
  shows "ble_feed u s cs =
     s\<lparr>rx_buffer := take (rx_buffer_idx s) (rx_buffer s) @ cs
                        @ drop (rx_buffer_idx s + length cs) (rx_buffer s),
       rx_buffer_idx := rx_buffer_idx s + length cs\<rparr>"
  using assms
proof (induction cs arbitrary: s)
  case Nil
  then show ?case by simp
next
  case (Cons c cs)
  let ?i = "rx_buffer_idx s" and ?b = "rx_buffer s"
  let ?s1 = "s\<lparr>rx_buffer := ?b[?i := c], rx_buffer_idx := ?i + 1\<rparr>"
  have i: "?i < BLE_RX_BUFFER_LEN - 1" "?i < length ?b" using Cons.prems by simp_all
  have c: "printable c" using Cons.prems by simp
  have st: "ble_rx_process_char u s c = ?s1"
    using c i(1) by (rule ble_step_printable)
  have "ble_feed u ?s1 cs = ?s1\<lparr>rx_buffer := take (rx_buffer_idx ?s1) (rx_buffer ?s1) @ cs
                        @ drop (rx_buffer_idx ?s1 + length cs) (rx_buffer ?s1),
       rx_buffer_idx := rx_buffer_idx ?s1 + length cs\<rparr>"
    using Cons.prems by (intro Cons.IH) simp_all
  moreover have "take (?i + 1) (?b[?i := c]) = take ?i ?b @ [c]"
    using i(2) by (simp add: take_Suc_conv_app_nth)
  moreover have "drop (?i + 1 + length cs) (?b[?i := c]) = drop (?i + 1 + length cs) ?b"
    by simp
  ultimately show ?case using st by simp
qed

lemma parse_ble_message_frame:
  "rx_buffer (parse_ble_message u s m) = rx_buffer s \<and>
   rx_buffer_idx (parse_ble_message u s m) = rx_buffer_idx s"
  by (simp add: parse_ble_message_def split: prod.splits)

lemma parse_ble_message_cong:
  assumes "ble_out s = ble_out t"
  shows "ble_out (parse_ble_message u s m) = ble_out (parse_ble_message u t m)"
proof -
  from assms have "current_status_data s = current_status_data t"
    "current_nav_data s = current_nav_data t" "is_connected s = is_connected t"
    by (simp_all add: ble_out_def)
  then show ?thesis
    by (simp add: parse_ble_message_def ble_out_def split: prod.splits)
qed

lemma ble_out_upd [simp]:
  "ble_out (s\<lparr>rx_buffer := b\<rparr>) = ble_out s"
  "ble_out (s\<lparr>rx_buffer_idx := i\<rparr>) = ble_out s"
  by (simp_all add: ble_out_def)

lemma ble_feed_line:
  assumes wf: "ble_wf s" and i0: "rx_buffer_idx s = 0" and ne: "line \<noteq> []"
    and pr: "\<forall>c\<in>set line. printable c" and len: "length line \<le> BLE_RX_BUFFER_LEN - 1"
  shows "ble_out (ble_feed u s (line @ [LF])) = ble_out (parse_ble_message u s line) \<and>
         rx_buffer_idx (ble_feed u s (line @ [LF])) = 0 \<and>
         ble_wf (ble_feed u s (line @ [LF]))"
proof -
  define buf where "buf = rx_buffer s"
  have lbuf: "length buf = 128" using wf by (simp add: ble_wf_def buf_def BLE_RX_BUFFER_LEN_def)
  have l: "length line \<le> 127" using len by (simp add: BLE_RX_BUFFER_LEN_def)
  define sa where "sa = ble_feed u s line"
  have "sa = s\<lparr>rx_buffer := take (rx_buffer_idx s) (rx_buffer s) @ line
                        @ drop (rx_buffer_idx s + length line) (rx_buffer s),
       rx_buffer_idx := rx_buffer_idx s + length line\<rparr>"
    unfolding sa_def using pr len lbuf l
    by (intro ble_feed_printable) (simp_all add: i0 buf_def[symmetric])
  then have sa: "rx_buffer sa = line @ drop (length line) buf" "rx_buffer_idx sa = length line"
    "ble_out sa = ble_out s"
    by (simp_all add: i0 buf_def ble_out_def)
  define b where "b = (rx_buffer sa)[length line := NUL]"
  have b: "b = line @ NUL # drop (Suc (length line)) buf"
    using l lbuf
    by (simp add: b_def sa list_update_append upd_conv_take_nth_drop drop_Suc tl_drop)
  have "NUL \<notin> set line" using pr printable_not_special(2) by auto
  then have cs: "c_str b = line"
    by (simp add: b c_str_append_NUL c_str_id)
  have lb: "length b = 128" using sa(1) lbuf l by (simp add: b_def)
  have "ble_feed u s (line @ [LF]) = ble_rx_process_char u sa LF"
    by (simp add: ble_feed_append sa_def)
  also have "\<dots> = (parse_ble_message u (sa\<lparr>rx_buffer := b\<rparr>) line)\<lparr>rx_buffer_idx := 0\<rparr>"
    using ne by (simp add: ble_rx_process_char_def BLE_MSG_TERMINATOR_def sa(2) Let_def b_def[symmetric] cs)
  finally have fin: "ble_feed u s (line @ [LF]) =
      (parse_ble_message u (sa\<lparr>rx_buffer := b\<rparr>) line)\<lparr>rx_buffer_idx := 0\<rparr>" .
  have "ble_out (parse_ble_message u (sa\<lparr>rx_buffer := b\<rparr>) line) = ble_out (parse_ble_message u s line)"
    by (rule parse_ble_message_cong) (simp add: sa(3))
  moreover have "ble_wf ((parse_ble_message u (sa\<lparr>rx_buffer := b\<rparr>) line)\<lparr>rx_buffer_idx := 0\<rparr>)"
    using lb by (simp add: ble_wf_def parse_ble_message_frame BLE_RX_BUFFER_LEN_def)
  ultimately show ?thesis by (simp add: fin)
qed

lemma isdigit_digit_of: "isdigit c \<Longrightarrow> digit_of c = Some (of_char c - 48) \<and> (of_char c - 48 :: nat) < 10"
  by (auto simp: isdigit_def digit_of_def Let_def)

lemma isdigit_not_special:
  assumes "isdigit c"
  shows "\<not> isspace c" "c \<noteq> CHR ''-''" "c \<noteq> CHR ''+''" "c \<noteq> CHR '',''" "printable c"
  using assms by (auto simp: isdigit_def isspace_def printable_def less_eq_char_def)

lemma strtol_digits_foldl:
  "\<forall>c\<in>set ds. isdigit c \<Longrightarrow>
   strtol_digits 10 ds acc = foldl (\<lambda>a c. 10 * a + (of_char c - 48)) acc ds"
  by (induction ds arbitrary: acc) (simp_all add: isdigit_digit_of mult.commute)

lemma strtol_digits_decimal:
  "\<forall>c\<in>set ds. isdigit c \<Longrightarrow> strtol_digits 10 ds 0 = decimal ds"
  by (simp add: strtol_digits_foldl decimal_def)

lemma takeWhile_append_stop:
  "\<forall>x\<in>set xs. P x \<Longrightarrow> (ys = [] \<or> \<not> P (hd ys)) \<Longrightarrow> takeWhile P (xs @ ys) = xs"
  by (induction xs) (auto simp: takeWhile_eq_Nil_iff)

lemma dropWhile_append_stop:
  "\<forall>x\<in>set xs. P x \<Longrightarrow> (ys = [] \<or> \<not> P (hd ys)) \<Longrightarrow> dropWhile P (xs @ ys) = ys"
  by (induction xs) (auto simp: dropWhile_eq_self_iff)

lemma scan_uint_digits:
  assumes ne: "ds \<noteq> []" and dg: "\<forall>c\<in>set ds. isdigit c" and st: "rest = [] \<or> \<not> isdigit (hd rest)"
    and rg: "decimal ds < 2 ^ uint_bits u"
  shows "scan_uint u (ds @ rest) = Some (decimal ds, rest)"
proof -
  obtain d ds' where d: "ds = d # ds'" using ne by (cases ds) auto
  then have dd: "isdigit d" using dg by simp
  note n = isdigit_not_special[OF dd]
  have s1: "dropWhile isspace (ds @ rest) = ds @ rest" using n(1) by (simp add: d)
  have sg: "take 1 (ds @ rest) \<noteq> ''-''" "take 1 (ds @ rest) \<noteq> ''+''" using n(2,3) by (simp_all add: d)
  have tw: "takeWhile isdigit (ds @ rest) = ds" using dg st by (rule takeWhile_append_stop)
  have dw: "dropWhile isdigit (ds @ rest) = rest" using dg st by (rule dropWhile_append_stop)
  show ?thesis
    using ne sg rg by (simp add: scan_uint_def s1 Let_def tw dw strtol_digits_decimal[OF dg])
qed

lemma sscanf_nav_wire:
  assumes "instr \<noteq> []" "CHR '','' \<notin> set instr" "length instr \<le> 63"
    "ds \<noteq> []" "\<forall>c\<in>set ds. isdigit c" "decimal ds < 2 ^ uint_bits u"
  shows "sscanf_nav u (instr @ CHR '','' # ds) = (2, instr, decimal ds)"
proof -
  have "take 63 (instr @ CHR '','' # ds) = instr @ take (63 - length instr) (CHR '','' # ds)"
    using assms(3) by simp
  moreover have "takeWhile (\<lambda>c. c \<noteq> CHR '','') (instr @ take (63 - length instr) (CHR '','' # ds)) = instr"
    using assms(2) by (intro takeWhile_append_stop) (auto simp: take_Cons')
  ultimately have tw: "takeWhile (\<lambda>c. c \<noteq> CHR '','') (take 63 (instr @ CHR '','' # ds)) = instr"
    by simp
  have "scan_uint u (ds @ []) = Some (decimal ds, [])"
    using assms(4,5,6) by (intro scan_uint_digits) simp_all
  then show ?thesis unfolding sscanf_nav_def Let_def tw using assms(1) by simp
qed


lemma strncmp_NAV: "strncmp (''NAV:'' @ x) ''NAV:'' 4 = 0"
  by (simp add: eval_nat_numeral)

lemma strncmp_STATUS:
  "strncmp (''STATUS:'' @ x) ''NAV:'' 4 \<noteq> 0" "strncmp (''STATUS:'' @ x) ''STATUS:'' 7 = 0"
  by (simp_all add: eval_nat_numeral)

lemma parse_nav_wire:
  assumes "instr \<noteq> []" "CHR '','' \<notin> set instr" "length instr \<le> 63"
    "ds \<noteq> []" "\<forall>c\<in>set ds. isdigit c" "decimal ds < 2 ^ uint_bits u"
  shows "parse_ble_message u s (''NAV:'' @ instr @ CHR '','' # ds) =
     s\<lparr>current_nav_data :=
          (current_nav_data s)
            \<lparr>instruction := strncpy (instruction (current_nav_data s)) instr 63,
             distance_m := of_nat (decimal ds),
             display_nav_data_t.updated := True\<rparr>,
       is_connected := True\<rparr>"
  using sscanf_nav_wire[OF assms] strncmp_NAV[of "instr @ CHR '','' # ds"]
  by (simp add: parse_ble_message_def)



lemma c_str_strncpy:
  assumes "NUL \<notin> set src" "length src < n"
  shows "c_str (strncpy dst src n) = src"
proof -
  have "replicate (n - length src) NUL = NUL # replicate (n - length src - 1) NUL"
    using assms(2) by (cases "n - length src") simp_all
  then have "take n (src @ replicate n NUL) = src @ NUL # replicate (n - length src - 1) NUL"
    using assms(2) by simp
  then show ?thesis using assms(1) by (simp add: strncpy_def c_str_append_NUL c_str_id)
qed

lemma scan_uint_suffix:
  assumes "scan_uint u inp = Some (v, r)"
  shows "\<exists>p. inp = p @ r"
proof -
  define s1 where "s1 = dropWhile isspace inp"
  define s2 where "s2 = (if take 1 s1 = ''-'' \<or> take 1 s1 = ''+'' then drop 1 s1 else s1)"
  have r: "r = dropWhile isdigit s2"
    using assms by (auto simp: scan_uint_def Let_def s1_def s2_def split: if_splits)
  have "inp = takeWhile isspace inp @ s1" by (simp add: s1_def)
  moreover have "\<exists>q. s1 = q @ s2" by (metis s2_def append_take_drop_id append_Nil)
  moreover have "s2 = takeWhile isdigit s2 @ r" by (simp add: r)
  ultimately show ?thesis by (metis append.assoc)
qed

lemma sscanf_status_3_commas:
  assumes "fst (sscanf_status u inp) = 3"
  shows "2 \<le> count_list inp CHR '',''"
proof -
  from assms obtain batt r2 signals r4 where
    1: "scan_uint u inp = Some (batt, CHR '','' # r2)" and
    2: "scan_uint u r2 = Some (signals, CHR '','' # r4)"
    by (auto simp: sscanf_status_def split: option.splits list.splits if_splits prod.splits)
  obtain p1 where "inp = p1 @ CHR '','' # r2" using scan_uint_suffix[OF 1] by blast
  moreover obtain p2 where "r2 = p2 @ CHR '','' # r4" using scan_uint_suffix[OF 2] by blast
  ultimately show ?thesis by simp
qed

lemma ble_idx_step: "rx_buffer_idx (ble_rx_process_char u s c) \<le> BLE_RX_BUFFER_LEN - 1"
  by (simp add: ble_rx_process_char_def Let_def parse_ble_message_frame BLE_RX_BUFFER_LEN_def)

lemma ble_idx_feed:
  "rx_buffer_idx s \<le> BLE_RX_BUFFER_LEN - 1 \<Longrightarrow> rx_buffer_idx (ble_feed u s bs) \<le> BLE_RX_BUFFER_LEN - 1"
proof (induction bs arbitrary: s)
  case Nil
  then show ?case by simp
next
  case (Cons c bs)
  have "rx_buffer_idx (ble_rx_process_char u s c) \<le> BLE_RX_BUFFER_LEN - 1" by (rule ble_idx_step)
  then have "rx_buffer_idx (ble_feed u (ble_rx_process_char u s c) bs) \<le> BLE_RX_BUFFER_LEN - 1"
    by (rule Cons.IH)
  then show ?case by simp
qed

lemma ble_rx_init_wf: "ble_wf ble_rx_init" "rx_buffer_idx ble_rx_init = 0"
  by (simp_all add: ble_wf_def ble_rx_init_def)

text \<open>
  Claim C6.  Whatever the C library, with an \<open>unsigned int\<close> of at least the 16 bits
  that ISO C guarantees, feeding the bytes of \<open>NAV:Turn left,120\<close> and the newline to the receiver
  just initialised leaves a nav record whose instruction reads \<open>Turn left\<close> and whose
  distance is 120, with the updated flag set.  \<open>ble_rx_get_nav_data\<close> then returns true
  and copies that record out, whatever the caller's location held; afterwards the flag is
  clear and a second call returns false and leaves the caller's location alone.
\<close>
theorem nav_round_trip:
  assumes "16 \<le> uint_bits lib"
  shows "let s1 = ble_feed lib ble_rx_init (''NAV:Turn left,120'' @ [LF]) in
     c_str (instruction (current_nav_data s1)) = ''Turn left'' \<and>
     distance_m (current_nav_data s1) = 120 \<and>
     ble_rx_is_nav_available s1 \<and>
     (\<forall>d0 d1.
        let (ret, copy, s2) = ble_rx_get_nav_data s1 (Some d0) in
          ret \<and> copy = Some (current_nav_data s1) \<and>
          \<not> ble_rx_is_nav_available s2 \<and>
          ble_rx_get_nav_data s2 (Some d1) = (False, Some d1, s2))"
proof -
  define s1 where "s1 = ble_feed lib ble_rx_init (''NAV:Turn left,120'' @ [LF])"
  have pr: "\<forall>c\<in>set ''NAV:Turn left,120''. printable c"
    by (simp add: printable_def less_eq_char_def)
  have "(2::nat) ^ 16 \<le> 2 ^ uint_bits lib" using assms by (intro power_increasing) simp_all
  moreover have "decimal ''120'' < 2 ^ 16" by (simp add: decimal_def)
  ultimately have rg: "decimal ''120'' < 2 ^ uint_bits lib" by (rule less_le_trans[rotated])
  have "ble_out s1 = ble_out (parse_ble_message lib ble_rx_init ''NAV:Turn left,120'')"
    unfolding s1_def using ble_feed_line[OF ble_rx_init_wf _ pr, of lib]
    by (simp add: BLE_RX_BUFFER_LEN_def)
  moreover have "parse_ble_message lib ble_rx_init ''NAV:Turn left,120'' =
      ble_rx_init\<lparr>current_nav_data :=
          (current_nav_data ble_rx_init)
            \<lparr>instruction := strncpy (instruction (current_nav_data ble_rx_init)) ''Turn left'' 63,
             distance_m := of_nat (decimal ''120''),
             display_nav_data_t.updated := True\<rparr>,
       is_connected := True\<rparr>"
    using parse_nav_wire[of "''Turn left''" "''120''" lib ble_rx_init] rg
    by (simp add: isdigit_def)
  ultimately have nav: "current_nav_data s1 =
      (current_nav_data ble_rx_init)
            \<lparr>instruction := strncpy (instruction (current_nav_data ble_rx_init)) ''Turn left'' 63,
             distance_m := of_nat (decimal ''120''),
             display_nav_data_t.updated := True\<rparr>"
    by (simp add: ble_out_def)
  have i: "c_str (instruction (current_nav_data s1)) = ''Turn left''"
    by (simp add: nav c_str_strncpy)
  have d: "distance_m (current_nav_data s1) = 120" by (simp add: nav decimal_def)
  have u: "display_nav_data_t.updated (current_nav_data s1)" by (simp add: nav)
  show ?thesis
    unfolding s1_def[symmetric] Let_def
    using i d u
    by (simp add: ble_rx_get_nav_data_def ble_rx_is_nav_available_def)
qed


theorem nav_round_trip_witness:
  "16 \<le> uint_bits libc_uint16 \<and>
   (let s1 = ble_feed libc_uint16 ble_rx_init (''NAV:Turn left,120'' @ [LF]) in
     c_str (instruction (current_nav_data s1)) = ''Turn left'' \<and>
     distance_m (current_nav_data s1) = 120 \<and>
     ble_rx_is_nav_available s1 \<and>
     (\<forall>d0 d1.
        let (ret, copy, s2) = ble_rx_get_nav_data s1 (Some d0) in
          ret \<and> copy = Some (current_nav_data s1) \<and>
          \<not> ble_rx_is_nav_available s2 \<and>
          ble_rx_get_nav_data s2 (Some d1) = (False, Some d1, s2)))"
proof -
  have h: "16 \<le> uint_bits libc_uint16" by (simp add: libc_uint16_def)
  from h nav_round_trip [OF h] show ?thesis by (rule conjI)
qed

text \<open>
  Claim C7.  A \<open>STATUS:\<close> line on which \<open>sscanf\<close> stores fewer than three numbers is
  dropped whole: fed from the start of a line in any state, whatever the C library, it
  leaves the status record (its three fields and its updated flag), the nav record and the
  connected flag exactly as they were.  The line is made of printable characters and fits
  the buffer.  Every remainder with fewer than two commas is such a line, and so are
  remainders with two commas and a number missing, such as \<open>100,2,\<close> and \<open>100,,5\<close>.
\<close>
theorem status_too_few_fields:
  assumes "ble_wf s" and "rx_buffer_idx s = 0"
    and "\<forall>c\<in>set rest. printable c" and "length rest \<le> 120"
  shows "(fst (sscanf_status lib rest) \<noteq> 3 \<longrightarrow>
            current_status_data (ble_feed lib s (''STATUS:'' @ rest @ [LF])) = current_status_data s \<and>
            current_nav_data (ble_feed lib s (''STATUS:'' @ rest @ [LF])) = current_nav_data s \<and>
            is_connected (ble_feed lib s (''STATUS:'' @ rest @ [LF])) = is_connected s) \<and>
         (count_list rest CHR '','' < 2 \<longrightarrow> fst (sscanf_status lib rest) \<noteq> 3)"
proof (intro conjI impI)
  assume n3: "fst (sscanf_status lib rest) \<noteq> 3"
  have pr: "\<forall>c\<in>set (''STATUS:'' @ rest). printable c"
    using assms(3) by (simp add: printable_def less_eq_char_def)
  have len: "length (''STATUS:'' @ rest) \<le> BLE_RX_BUFFER_LEN - 1"
    using assms(4) by (simp add: BLE_RX_BUFFER_LEN_def)
  have "parse_ble_message lib s (''STATUS:'' @ rest) = s"
    using n3 strncmp_STATUS[of rest] by (auto simp: parse_ble_message_def split: prod.splits)
  then have "ble_out (ble_feed lib s ((''STATUS:'' @ rest) @ [LF])) = ble_out s"
    using ble_feed_line[OF assms(1,2) _ pr len, of lib] by simp
  then show "current_status_data (ble_feed lib s (''STATUS:'' @ rest @ [LF])) = current_status_data s"
    "current_nav_data (ble_feed lib s (''STATUS:'' @ rest @ [LF])) = current_nav_data s"
    "is_connected (ble_feed lib s (''STATUS:'' @ rest @ [LF])) = is_connected s"
    by (simp_all add: ble_out_def)
next
  assume "count_list rest CHR '','' < 2"
  then show "fst (sscanf_status lib rest) \<noteq> 3"
    using sscanf_status_3_commas[of lib rest] by auto
qed

theorem status_too_few_fields_witness:
  "ble_wf ble_rx_init \<and> rx_buffer_idx ble_rx_init = 0 \<and>
   list_all (\<lambda>rest.
      list_all printable rest \<and> length rest \<le> 120 \<and>
      fst (sscanf_status libc_uint16 rest) \<noteq> 3 \<and>
      current_status_data (ble_feed libc_uint16 ble_rx_init (''STATUS:'' @ rest @ [LF]))
        = current_status_data ble_rx_init \<and>
      current_nav_data (ble_feed libc_uint16 ble_rx_init (''STATUS:'' @ rest @ [LF]))
        = current_nav_data ble_rx_init \<and>
      is_connected (ble_feed libc_uint16 ble_rx_init (''STATUS:'' @ rest @ [LF]))
        = is_connected ble_rx_init)
    [''100,2'', ''100,2,'', ''100,2,x'', ''100,,5'', ''1 ,2,3'', ''100'', ''abc'', ''''] \<and>
   count_list ''100,2'' CHR '','' < 2 \<and>
   fst (sscanf_status libc_uint16 ''100,2,'') = 2 \<and>
   fst (sscanf_status libc_uint16 ''1 ,2,3'') = 1 \<and>
   fst (sscanf_status libc_uint16 ''100,2,3'') = 3"
proof -
  have h: "ble_wf ble_rx_init" "rx_buffer_idx ble_rx_init = 0"
    by (simp_all add: ble_rx_init_wf)
  have ev: "fst (sscanf_status libc_uint16 ''100,2'') = 2"
    "fst (sscanf_status libc_uint16 ''100,2,'') = 2"
    "fst (sscanf_status libc_uint16 ''100,2,x'') = 2"
    "fst (sscanf_status libc_uint16 ''100,,5'') = 1"
    "fst (sscanf_status libc_uint16 ''1 ,2,3'') = 1"
    "fst (sscanf_status libc_uint16 ''100'') = 1"
    "fst (sscanf_status libc_uint16 ''abc'') = 0"
    "fst (sscanf_status libc_uint16 '''') = - 1"
    "fst (sscanf_status libc_uint16 ''100,2,3'') = 3"
    by (simp_all add: sscanf_status_def scan_uint_def Let_def isspace_def isdigit_def
        digit_of_def libc_uint16_def)
  have row: "list_all printable rest \<and> length rest \<le> 120 \<and>
      fst (sscanf_status libc_uint16 rest) \<noteq> 3 \<and>
      current_status_data (ble_feed libc_uint16 ble_rx_init (''STATUS:'' @ rest @ [LF]))
        = current_status_data ble_rx_init \<and>
      current_nav_data (ble_feed libc_uint16 ble_rx_init (''STATUS:'' @ rest @ [LF]))
        = current_nav_data ble_rx_init \<and>
      is_connected (ble_feed libc_uint16 ble_rx_init (''STATUS:'' @ rest @ [LF]))
        = is_connected ble_rx_init"
    if p: "\<forall>c\<in>set rest. printable c" and l: "length rest \<le> 120"
      and n: "fst (sscanf_status libc_uint16 rest) \<noteq> 3" for rest
    using p l n status_too_few_fields [OF h p l, of libc_uint16, THEN conjunct1, THEN mp, OF n]
    by (simp add: list_all_iff)
  have rows: "list_all (\<lambda>rest.
      list_all printable rest \<and> length rest \<le> 120 \<and>
      fst (sscanf_status libc_uint16 rest) \<noteq> 3 \<and>
      current_status_data (ble_feed libc_uint16 ble_rx_init (''STATUS:'' @ rest @ [LF]))
        = current_status_data ble_rx_init \<and>
      current_nav_data (ble_feed libc_uint16 ble_rx_init (''STATUS:'' @ rest @ [LF]))
        = current_nav_data ble_rx_init \<and>
      is_connected (ble_feed libc_uint16 ble_rx_init (''STATUS:'' @ rest @ [LF]))
        = is_connected ble_rx_init)
    [''100,2'', ''100,2,'', ''100,2,x'', ''100,,5'', ''1 ,2,3'', ''100'', ''abc'', '''']"
    by ((rule iffD2[OF list.pred_inject(2)], rule conjI,
          (rule row; simp add: printable_def less_eq_char_def ev))+, simp)
  have c: "count_list ''100,2'' CHR '','' < 2" by simp
  show ?thesis
    by (rule conjI[OF h(1) conjI[OF h(2) conjI[OF rows conjI[OF c conjI[OF ev(2) conjI[OF ev(5) ev(9)]]]]]])
qed

text \<open>
  Claim C9, as the receiver has it.  A byte outside the range space to tilde that is not
  the terminator leaves the whole state unchanged as long as the fill index is below
  \<open>BLE_RX_BUFFER_LEN - 1\<close>.  When the accumulator is full the byte takes the overflow
  branch like any other: the line in progress is discarded by the reset of the fill index,
  and nothing else changes.  The fill index of a reachable state never exceeds
  \<open>BLE_RX_BUFFER_LEN - 1\<close>, and it reaches it after 127 printable bytes.
\<close>
theorem nonprintable_byte:
  assumes "c \<noteq> BLE_MSG_TERMINATOR" and "\<not> (CHR '' '' \<le> c \<and> c \<le> CHR ''~'')"
  shows "(rx_buffer_idx s < BLE_RX_BUFFER_LEN - 1 \<longrightarrow> ble_rx_process_char lib s c = s) \<and>
         (\<not> rx_buffer_idx s < BLE_RX_BUFFER_LEN - 1 \<longrightarrow>
            ble_rx_process_char lib s c = s\<lparr>rx_buffer_idx := 0\<rparr>) \<and>
         rx_buffer_idx (ble_feed lib ble_rx_init bytes) \<le> BLE_RX_BUFFER_LEN - 1"
proof -
  have "rx_buffer_idx (ble_feed lib ble_rx_init bytes) \<le> BLE_RX_BUFFER_LEN - 1"
    by (rule ble_idx_feed) (simp add: ble_rx_init_wf)
  then show ?thesis using assms by (auto simp: ble_rx_process_char_def)
qed

theorem nonprintable_byte_witness:
  "CHR 0x01 \<noteq> BLE_MSG_TERMINATOR \<and> \<not> (CHR '' '' \<le> CHR 0x01 \<and> CHR 0x01 \<le> CHR ''~'') \<and>
   rx_buffer_idx (ble_feed libc_uint16 ble_rx_init ''NAV:Tu'') < BLE_RX_BUFFER_LEN - 1 \<and>
   ble_rx_process_char libc_uint16 (ble_feed libc_uint16 ble_rx_init ''NAV:Tu'') (CHR 0x01) = ble_feed libc_uint16 ble_rx_init ''NAV:Tu'' \<and>
   \<not> rx_buffer_idx (ble_feed libc_uint16 ble_rx_init (replicate 127 CHR ''A'')) < BLE_RX_BUFFER_LEN - 1 \<and>
   rx_buffer_idx (ble_rx_process_char libc_uint16 (ble_feed libc_uint16 ble_rx_init (replicate 127 CHR ''A'')) (CHR 0x01)) = 0"
proof -
  have ev: ?thesis by code_simp
  show ?thesis
    using nonprintable_byte [of "CHR 0x01" "ble_feed libc_uint16 ble_rx_init ''NAV:Tu''" libc_uint16 "[]"]
    by - (rule ev)
qed

theorem nonprintable_byte_counterexample:
  "CHR 0x01 \<noteq> BLE_MSG_TERMINATOR \<and> \<not> (CHR '' '' \<le> CHR 0x01 \<and> CHR 0x01 \<le> CHR ''~'') \<and>
   rx_buffer_idx (ble_feed libc_uint16 ble_rx_init (replicate 127 CHR ''A'')) = 127 \<and>
   rx_buffer_idx (ble_rx_process_char libc_uint16 (ble_feed libc_uint16 ble_rx_init (replicate 127 CHR ''A'')) (CHR 0x01)) = 0 \<and>
   ble_rx_process_char libc_uint16 (ble_feed libc_uint16 ble_rx_init (replicate 127 CHR ''A'')) (CHR 0x01)
     \<noteq> ble_feed libc_uint16 ble_rx_init (replicate 127 CHR ''A'')"
  by code_simp



end
